theory Spec2Isabelle
  imports Main "HOL-Library.Word"
begin

unbundle bit_operations_syntax

section \<open>The board\<close>

text \<open>
  \<^verbatim>\<open>export type Board = number[][]\<close>: a grid is a list of rows, 0 marks an empty
  cell. The solver and the generator only ever index rows and columns 0..8.
\<close>

type_synonym Board = "int list list"

definition cell :: "Board \<Rightarrow> nat \<Rightarrow> nat \<Rightarrow> int" where
  "cell b r c = b ! r ! c"

definition setCell :: "Board \<Rightarrow> nat \<Rightarrow> nat \<Rightarrow> int \<Rightarrow> Board" where
  "setCell b r c v = b[r := (b ! r)[c := v]]"

definition is9x9 :: "Board \<Rightarrow> bool" where
  "is9x9 b = (length b = 9 \<and> list_all (\<lambda>r. length r = 9) b)"

definition wf_board :: "Board \<Rightarrow> bool" where
  "wf_board b = (is9x9 b \<and> list_all (list_all (\<lambda>v. 0 \<le> v \<and> v \<le> 9)) b)"

definition positions :: "(nat \<times> nat) list" where
  "positions = List.product [0..<9] [0..<9]"

section \<open>Constraint check\<close>

text \<open>
  \<^verbatim>\<open>SudokuSolver.isValid(row, col, num)\<close>: three scans with an early
  \<^verbatim>\<open>return false\<close>; the scans read every cell of the row, of the column and of the
  box, the cell (row, col) included.
\<close>

definition isValid :: "Board \<Rightarrow> nat \<Rightarrow> nat \<Rightarrow> int \<Rightarrow> bool" where
  "isValid b row col num =
     (if list_ex (\<lambda>x. cell b row x = num) [0..<9] then False
      else if list_ex (\<lambda>x. cell b x col = num) [0..<9] then False
      else
        (let boxRow = (row div 3) * 3; boxCol = (col div 3) * 3
         in if list_ex (\<lambda>i. list_ex (\<lambda>j. cell b (boxRow + i) (boxCol + j) = num) [0..<3]) [0..<3]
            then False else True))"

text \<open>\<^verbatim>\<open>SudokuGenerator.isSafe(grid, row, col, num)\<close>: the same three scans.\<close>

definition isSafe :: "Board \<Rightarrow> nat \<Rightarrow> nat \<Rightarrow> int \<Rightarrow> bool" where
  "isSafe grid row col num =
     (if list_ex (\<lambda>j. cell grid row j = num) [0..<9] then False
      else if list_ex (\<lambda>i. cell grid i col = num) [0..<9] then False
      else
        (let boxRow = (row div 3) * 3; boxCol = (col div 3) * 3
         in if list_ex (\<lambda>i. list_ex (\<lambda>j. cell grid (boxRow + i) (boxCol + j) = num) [0..<3]) [0..<3]
            then False else True))"

text \<open>The cells that share a row, a column or a box with (r, c); (r, c) is one of them.\<close>

definition sameUnit :: "nat \<Rightarrow> nat \<Rightarrow> nat \<Rightarrow> nat \<Rightarrow> bool" where
  "sameUnit r c i j = (i = r \<or> j = c \<or> (i div 3 = r div 3 \<and> j div 3 = c div 3))"

definition unitCells :: "nat \<Rightarrow> nat \<Rightarrow> (nat \<times> nat) list" where
  "unitCells r c = filter (\<lambda>(i, j). sameUnit r c i j) positions"

text \<open>The check as the specification words it: a conflict is a cell other than (r, c).\<close>

definition conflictElsewhere :: "Board \<Rightarrow> nat \<Rightarrow> nat \<Rightarrow> int \<Rightarrow> bool" where
  "conflictElsewhere b r c v =
     list_ex (\<lambda>(i, j). (i, j) \<noteq> (r, c) \<and> cell b i j = v) (unitCells r c)"

definition conflictAnywhere :: "Board \<Rightarrow> nat \<Rightarrow> nat \<Rightarrow> int \<Rightarrow> bool" where
  "conflictAnywhere b r c v = list_ex (\<lambda>(i, j). cell b i j = v) (unitCells r c)"

definition emptyBoard :: Board where
  "emptyBoard = replicate 9 (replicate 9 0)"


section \<open>Solver state\<close>

text \<open>
  \<^verbatim>\<open>SolverStep\<close>: the fields \<^verbatim>\<open>row\<close> and \<^verbatim>\<open>col\<close> are named \<open>stepRow\<close> and
  \<open>stepCol\<close> here.
\<close>

record SolverStep =
  stepRow :: nat
  stepCol :: nat
  testedValues :: "int list"
  finalValue :: int

datatype SolverAlgorithm = DLX | BACKTRACK | SIMPLE

fun algorithmName :: "SolverAlgorithm \<Rightarrow> string" where
  "algorithmName DLX = ''Dancing Links (DLX)''"
| "algorithmName BACKTRACK = ''Backtracking with Bit Operations''"
| "algorithmName SIMPLE = ''Simple Backtracking''"

text \<open>\<^verbatim>\<open>SolverStats\<close> without \<^verbatim>\<open>timeMs\<close>, which is wall-clock time.\<close>

record SolverStats =
  algorithm :: string
  steps :: nat

text \<open>
  The objects of the exact-cover matrix live in a store addressed by natural numbers:
  a \<^verbatim>\<open>DLXNode\<close> or \<^verbatim>\<open>ColumnNode\<close> is an address, each field a function of
  addresses, and \<open>nextId\<close> is the next address \<^verbatim>\<open>new\<close> hands out. The fields
  \<^verbatim>\<open>row\<close>, \<^verbatim>\<open>col\<close>, \<^verbatim>\<open>num\<close> of a node are \<open>nodeRow\<close>, \<open>nodeCol\<close>,
  \<open>nodeNum\<close>; the \<^verbatim>\<open>name\<close> of a column is never read and is left out.
\<close>

record Matrix =
  left :: "nat \<Rightarrow> nat"
  right :: "nat \<Rightarrow> nat"
  up :: "nat \<Rightarrow> nat"
  down :: "nat \<Rightarrow> nat"
  column :: "nat \<Rightarrow> nat"
  colSize :: "nat \<Rightarrow> int"
  nodeRow :: "nat \<Rightarrow> nat"
  nodeCol :: "nat \<Rightarrow> nat"
  nodeNum :: "nat \<Rightarrow> int"
  nextId :: nat

record Solver =
  board :: Board
  solutionSteps :: "SolverStep list"
  header :: nat
  columns :: "nat list"
  nodes :: Matrix
  rows :: "16 word list"
  cols :: "16 word list"
  boxes :: "16 word list"
  stats :: SolverStats
  currentTestedValues :: "int list"

definition setBoard :: "Board \<Rightarrow> Solver \<Rightarrow> Solver" where
  "setBoard b s = s\<lparr>board := map (\<lambda>row. row) b, solutionSteps := []\<rparr>"

definition getSolution :: "Solver \<Rightarrow> Board" where
  "getSolution s = map (\<lambda>row. row) (board s)"

definition getSolutionSteps :: "Solver \<Rightarrow> SolverStep list" where
  "getSolutionSteps s = solutionSteps s"

text \<open>
  The first empty cell in row-major order: what the two nested \<^verbatim>\<open>for\<close> loops of the
  backtracking searches stop at.
\<close>

definition firstEmpty :: "Board \<Rightarrow> (nat \<times> nat) option" where
  "firstEmpty b = find (\<lambda>(r, c). cell b r c = 0) positions"

section \<open>Simple backtracking\<close>

text \<open>
  \<^verbatim>\<open>solveSimple\<close>. The first argument bounds the depth of the recursion: with none left
  the result is \<open>None\<close>. \<open>solveSimple_for\<close> is the loop \<^verbatim>\<open>for (num = 1; num <= 9; num++)\<close>
  over the values still to try.
\<close>

fun solveSimple :: "nat \<Rightarrow> Solver \<Rightarrow> (bool \<times> Solver) option"
  and solveSimple_for :: "nat \<Rightarrow> nat \<Rightarrow> nat \<Rightarrow> int list \<Rightarrow> Solver \<Rightarrow> (bool \<times> Solver) option"
where
  "solveSimple 0 s = None"
| "solveSimple (Suc k) s =
     (case firstEmpty (board s) of
        None \<Rightarrow> Some (True, s)
      | Some (row, col) \<Rightarrow> solveSimple_for k row col [1..9] (s\<lparr>currentTestedValues := []\<rparr>))"
| "solveSimple_for k row col [] s = Some (False, s)"
| "solveSimple_for k row col (num # nums) s =
     (let s1 = s\<lparr>currentTestedValues := currentTestedValues s @ [num]\<rparr>
      in if isValid (board s1) row col num then
           (let s2 = s1\<lparr>board := setCell (board s1) row col num\<rparr>;
                s3 = s2\<lparr>solutionSteps := solutionSteps s2 @
                       [\<lparr>stepRow = row, stepCol = col,
                         testedValues = currentTestedValues s2, finalValue = num\<rparr>]\<rparr>
            in case solveSimple k s3 of
                 None \<Rightarrow> None
               | Some (ok, s4) \<Rightarrow>
                   if ok then Some (True, s4)
                   else solveSimple_for k row col nums
                          (s4\<lparr>board := setCell (board s4) row col 0,
                              solutionSteps := butlast (solutionSteps s4)\<rparr>))
         else solveSimple_for k row col nums s1)"

section \<open>Backtracking with bit operations\<close>

text \<open>
  The masks are \<^verbatim>\<open>Uint16Array(9)\<close>; JavaScript's bitwise operators work on 32-bit
  integers, and a store into the array keeps the low 16 bits.
\<close>

definition ALL_NUMS :: "32 word" where
  "ALL_NUMS = 0b1111111110"

definition shl1 :: "int \<Rightarrow> 32 word" where
  \<comment> \<open>\<^verbatim>\<open>1 << num\<close>: the shift count is taken modulo 32\<close>
  "shl1 num = push_bit (nat (num mod 32)) 1"

definition orStore :: "16 word list \<Rightarrow> nat \<Rightarrow> 32 word \<Rightarrow> 16 word list" where
  \<comment> \<open>\<^verbatim>\<open>a[i] |= bit\<close>\<close>
  "orStore a i b = a[i := ucast ((ucast (a ! i) :: 32 word) OR b)]"

definition andNotStore :: "16 word list \<Rightarrow> nat \<Rightarrow> 32 word \<Rightarrow> 16 word list" where
  \<comment> \<open>\<^verbatim>\<open>a[i] &= ~bit\<close>\<close>
  "andNotStore a i b = a[i := ucast ((ucast (a ! i) :: 32 word) AND NOT b)]"

definition boxOf :: "nat \<Rightarrow> nat \<Rightarrow> nat" where
  "boxOf row col = (row div 3) * 3 + col div 3"

definition initializeBitArrays :: "Solver \<Rightarrow> Solver" where
  "initializeBitArrays s =
     foldl (\<lambda>t (row, col).
              let num = cell (board t) row col
              in if num \<noteq> 0 then
                   (let b = shl1 num; box = boxOf row col
                    in t\<lparr>rows := orStore (rows t) row b,
                         cols := orStore (cols t) col b,
                         boxes := orStore (boxes t) box b\<rparr>)
                 else t)
       (s\<lparr>rows := map (\<lambda>_. 0) (rows s), cols := map (\<lambda>_. 0) (cols s),
          boxes := map (\<lambda>_. 0) (boxes s)\<rparr>)
       positions"

definition getValidNumbers :: "Solver \<Rightarrow> nat \<Rightarrow> nat \<Rightarrow> 32 word" where
  "getValidNumbers s row col =
     (let box = boxOf row col;
          used = (ucast (rows s ! row) :: 32 word) OR ucast (cols s ! col) OR ucast (boxes s ! box)
      in ALL_NUMS AND NOT used)"

text \<open>
  \<^verbatim>\<open>Math.log2\<close> is only ever applied to a single bit \<open>2 ^ k\<close>, where it is \<open>k\<close>;
  \<open>log2\<close> is the integer logarithm.
\<close>

fun ilog2 :: "nat \<Rightarrow> nat" where
  "ilog2 n = (if n < 2 then 0 else Suc (ilog2 (n div 2)))"

definition log2 :: "32 word \<Rightarrow> int" where
  "log2 w = int (ilog2 (unat w))"

definition lowestBit :: "32 word \<Rightarrow> 32 word" where
  \<comment> \<open>\<^verbatim>\<open>nums & -nums\<close>\<close>
  "lowestBit nums = nums AND (- nums)"

lemma odd_and_neg:
  fixes x :: "'a::len word"
  assumes "odd x"
  shows "x AND - x = 1"
proof (rule bit_eqI)
  fix n
  assume "possible_bit TYPE('a word) n"
  have dec: "x - 1 = 2 * (x div 2)"
  proof -
    have a: "x mod 2 = 1" using assms by (simp add: odd_iff_mod_2_eq_one)
    have "2 * (x div 2) + x mod 2 = x" by (rule mult_div_mod_eq)
    with a have "2 * (x div 2) + 1 = x" by simp
    then show ?thesis by (metis add_diff_cancel_right')
  qed
  show "bit (x AND - x) n \<longleftrightarrow> bit (1::'a word) n"
  proof (cases n)
    case 0
    then show ?thesis using assms by (simp add: bit_0 even_and_iff)
  next
    case (Suc k)
    have a: "bit (x AND - x) (Suc k) \<longleftrightarrow> bit x (Suc k) \<and> bit (- x) (Suc k)"
      by (simp only: bit_and_iff)
    have b: "bit (- x) (Suc k) \<longleftrightarrow>
        possible_bit TYPE('a word) (Suc k) \<and> \<not> bit (2 * (x div 2)) (Suc k)"
      by (simp only: bit_minus_iff dec)
    have c: "bit (2 * (x div 2)) (Suc k) \<longleftrightarrow>
        possible_bit TYPE('a word) (Suc k) \<and> bit (x div 2) k"
      by (simp add: bit_double_iff)
    have d: "bit x (Suc k) = bit (x div 2) k" by (simp only: bit_Suc)
    have "\<not> bit (x AND - x) (Suc k)" unfolding a b c d by blast
    then show ?thesis using Suc by (simp add: bit_1_iff)
  qed
qed

lemma lowestBit_eq:
  fixes nums :: "32 word"
  assumes "nums \<noteq> 0"
  shows "\<exists>m<32. lowestBit nums = push_bit m 1 \<and> bit nums m \<and> (\<forall>k<m. \<not> bit nums k)"
proof -
  obtain n where n: "bit nums n" using assms by (auto simp: bit_eq_iff)
  define m where "m = (LEAST n. bit nums n)"
  have m: "bit nums m" unfolding m_def using n by (rule LeastI)
  have least: "\<And>k. k < m \<Longrightarrow> \<not> bit nums k" unfolding m_def by (rule not_less_Least)
  have m32: "m < 32" using bit_imp_le_length[OF m] by simp
  define y where "y = drop_bit m nums"
  have "odd y" using m by (simp add: y_def bit_iff_odd_drop_bit)
  have "take_bit m nums = 0"
    by (rule bit_eqI) (auto simp: bit_take_bit_iff least)
  then have nm: "nums = push_bit m y"
    unfolding y_def using bits_ident[of m nums] by simp
  have "lowestBit nums = push_bit m (y AND - y)"
    unfolding lowestBit_def nm by (simp add: push_bit_minus)
  then have "lowestBit nums = push_bit m 1"
    using odd_and_neg[OF \<open>odd y\<close>] by simp
  with m least m32 show ?thesis by blast
qed

lemma lowestBit_clear_less:
  fixes nums :: "32 word"
  assumes "nums \<noteq> 0"
  shows "unat (nums AND NOT (lowestBit nums)) < unat nums"
proof -
  obtain m where m: "m < 32" "lowestBit nums = push_bit m 1" "bit nums m"
    using lowestBit_eq[OF assms] by blast
  have le: "nums AND NOT (lowestBit nums) \<le> nums" by (rule word_and_le2)
  have "\<not> bit (nums AND NOT (lowestBit nums)) m"
    using m by (simp add: bit_and_iff bit_not_iff bit_exp_iff)
  with m(3) have "nums AND NOT (lowestBit nums) \<noteq> nums" by metis
  with le have "nums AND NOT (lowestBit nums) < nums" by simp
  then show ?thesis by (simp add: word_less_nat_alt)
qed

lemma ilog2_pow: "ilog2 (2 ^ m) = m"
  by (induction m) (simp_all del: ilog2.simps add: ilog2.simps[of "2 * _"] ilog2.simps[of "Suc 0"] ilog2.simps[of 1])


text \<open>
  The body of the loop \<^verbatim>\<open>while (nums)\<close> up to the recursive call, for the bit \<open>num\<close>:
  the value is pushed on \<^verbatim>\<open>currentTestedValues\<close>, the three masks and the cell are
  written, the Step is recorded.
\<close>

definition placeBit :: "nat \<Rightarrow> nat \<Rightarrow> 32 word \<Rightarrow> Solver \<Rightarrow> Solver" where
  "placeBit row col num s =
     (let value = log2 num;
          s1 = s\<lparr>currentTestedValues := currentTestedValues s @ [value]\<rparr>;
          box = boxOf row col;
          s2 = s1\<lparr>rows := orStore (rows s1) row num, cols := orStore (cols s1) col num,
                   boxes := orStore (boxes s1) box num,
                   board := setCell (board s1) row col value\<rparr>
      in s2\<lparr>solutionSteps := solutionSteps s2 @
              [\<lparr>stepRow = row, stepCol = col,
                testedValues = currentTestedValues s2, finalValue = value\<rparr>]\<rparr>)"

text \<open>The lines after \<^verbatim>\<open>// Backtrack\<close>.\<close>

definition unplaceBit :: "nat \<Rightarrow> nat \<Rightarrow> 32 word \<Rightarrow> Solver \<Rightarrow> Solver" where
  "unplaceBit row col num s =
     (let box = boxOf row col
      in s\<lparr>rows := andNotStore (rows s) row num,
           cols := andNotStore (cols s) col num,
           boxes := andNotStore (boxes s) box num,
           board := setCell (board s) row col 0,
           solutionSteps := butlast (solutionSteps s)\<rparr>)"

text \<open>
  \<^verbatim>\<open>searchBacktrack\<close>; the first argument bounds the depth of the recursion.
  \<open>searchBacktrack_while\<close> is the loop \<^verbatim>\<open>while (nums)\<close> for the cell (row, col).
\<close>

function searchBacktrack :: "nat \<Rightarrow> Solver \<Rightarrow> (bool \<times> Solver) option"
  and searchBacktrack_while :: "nat \<Rightarrow> nat \<Rightarrow> nat \<Rightarrow> 32 word \<Rightarrow> Solver \<Rightarrow> (bool \<times> Solver) option"
where
  "searchBacktrack 0 s = None"
| "searchBacktrack (Suc k) s =
     (case firstEmpty (board s) of
        None \<Rightarrow> Some (True, s)
      | Some (row, col) \<Rightarrow>
          (let validNums = getValidNumbers s row col
           in searchBacktrack_while k row col validNums (s\<lparr>currentTestedValues := []\<rparr>)))"
| "searchBacktrack_while k row col nums s =
     (if nums = 0 then Some (False, s)
      else
        (let num = lowestBit nums;
             nums' = nums AND NOT num
         in case searchBacktrack k (placeBit row col num s) of
              None \<Rightarrow> None
            | Some (ok, s4) \<Rightarrow>
                if ok then Some (True, s4)
                else searchBacktrack_while k row col nums' (unplaceBit row col num s4)))"
  by pat_completeness auto
termination
  by (relation "measures
        [\<lambda>x. case x of Inl (k, s) \<Rightarrow> 2 * k | Inr (k, r, c, nums, s) \<Rightarrow> 2 * k + 1,
         \<lambda>x. case x of Inl _ \<Rightarrow> 0 | Inr (k, r, c, nums, s) \<Rightarrow> unat nums]")
     (auto simp: lowestBit_clear_less)

text \<open>
  The states at which \<^verbatim>\<open>searchBacktrack\<close> is entered in the course of a call: the
  call itself, and the calls made from its loop. These are the points where the masks are
  read (by \<^verbatim>\<open>getValidNumbers\<close>, when a cell is empty).
\<close>

inductive entered :: "nat \<Rightarrow> Solver \<Rightarrow> Solver \<Rightarrow> bool"
  and enteredFrom :: "nat \<Rightarrow> nat \<Rightarrow> nat \<Rightarrow> 32 word \<Rightarrow> Solver \<Rightarrow> Solver \<Rightarrow> bool"
where
  entered_here: "entered (Suc k) s s"
| entered_loop: "firstEmpty (board s) = Some (row, col) \<Longrightarrow>
     enteredFrom k row col (getValidNumbers s row col) (s\<lparr>currentTestedValues := []\<rparr>) t \<Longrightarrow>
     entered (Suc k) s t"
| entered_call: "nums \<noteq> 0 \<Longrightarrow> entered k (placeBit row col (lowestBit nums) s) t \<Longrightarrow>
     enteredFrom k row col nums s t"
| entered_next: "nums \<noteq> 0 \<Longrightarrow>
     searchBacktrack k (placeBit row col (lowestBit nums) s) = Some (False, s4) \<Longrightarrow>
     enteredFrom k row col (nums AND NOT (lowestBit nums)) (unplaceBit row col (lowestBit nums) s4) t \<Longrightarrow>
     enteredFrom k row col nums s t"

definition solveBacktrack :: "nat \<Rightarrow> Solver \<Rightarrow> (bool \<times> Solver) option" where
  "solveBacktrack k s = searchBacktrack k (initializeBitArrays s)"


section \<open>What a solution is\<close>

definition emptyCells :: "Board \<Rightarrow> (nat \<times> nat) list" where
  "emptyCells b = filter (\<lambda>(r, c). cell b r c = 0) positions"

definition filledIn :: "Board \<Rightarrow> bool" where
  "filledIn b = list_all (\<lambda>(r, c). 1 \<le> cell b r c \<and> cell b r c \<le> 9) positions"

definition boxCells :: "nat \<Rightarrow> (nat \<times> nat) list" where
  "boxCells k = map (\<lambda>(i, j). (3 * (k div 3) + i, 3 * (k mod 3) + j)) (List.product [0..<3] [0..<3])"

definition noRepeats :: "Board \<Rightarrow> bool" where
  "noRepeats b =
     (list_all (\<lambda>r. distinct (map (\<lambda>c. cell b r c) [0..<9])) [0..<9]
    \<and> list_all (\<lambda>c. distinct (map (\<lambda>r. cell b r c) [0..<9])) [0..<9]
    \<and> list_all (\<lambda>k. distinct (map (\<lambda>(i, j). cell b i j) (boxCells k))) [0..<9])"

definition keepsGivens :: "Board \<Rightarrow> Board \<Rightarrow> bool" where
  "keepsGivens g b = list_all (\<lambda>(r, c). cell g r c = 0 \<or> cell b r c = cell g r c) positions"

definition legalCompletion :: "Board \<Rightarrow> Board \<Rightarrow> bool" where
  "legalCompletion g b = (is9x9 b \<and> filledIn b \<and> noRepeats b \<and> keepsGivens g b)"

text \<open>Writing the final value of every Step of a trace into a grid, in order.\<close>

definition replay :: "Board \<Rightarrow> SolverStep list \<Rightarrow> Board" where
  "replay g tr = foldl (\<lambda>b st. setCell b (stepRow st) (stepCol st) (finalValue st)) g tr"

definition stepOk :: "SolverStep \<Rightarrow> bool" where
  "stepOk st = (testedValues st \<noteq> [] \<and> last (testedValues st) = finalValue st)"


text \<open>
  No two cells of a common row, column or box hold the same non-zero value: what a grid
  looks like while a search is filling it.
\<close>

definition consistent :: "Board \<Rightarrow> bool" where
  "consistent b =
     (\<forall>i<9. \<forall>j<9. \<forall>i'<9. \<forall>j'<9. (i, j) \<noteq> (i', j') \<longrightarrow> sameUnit i j i' j' \<longrightarrow>
        cell b i j \<noteq> 0 \<longrightarrow> cell b i j \<noteq> cell b i' j')"


text \<open>
  What a backtracking search called on the grid \<open>b\<close> with the trace \<open>tr\<close> leaves behind:
  on success the givens of \<open>b\<close>, a value in 1..9 in every cell that was empty, and one new
  Step per empty cell, in row-major order; on failure the grid and the trace it was given.
\<close>

definition stepCell :: "SolverStep \<Rightarrow> nat \<times> nat" where
  "stepCell st = (stepRow st, stepCol st)"

definition searchPost :: "Board \<Rightarrow> SolverStep list \<Rightarrow> bool \<Rightarrow> Solver \<Rightarrow> bool" where
  "searchPost b tr ok s' =
     (if ok then
        is9x9 (board s') \<and> keepsGivens b (board s')
        \<and> (\<forall>i<9. \<forall>j<9. cell b i j = 0 \<longrightarrow> 1 \<le> cell (board s') i j \<and> cell (board s') i j \<le> 9)
        \<and> (consistent b \<longrightarrow> consistent (board s'))
        \<and> (\<exists>new. solutionSteps s' = tr @ new \<and> map stepCell new = emptyCells b
              \<and> (\<forall>st \<in> set new. finalValue st = cell (board s') (stepRow st) (stepCol st)))
      else board s' = b \<and> solutionSteps s' = tr)"


section \<open>The masks mirror the board\<close>

text \<open>
  Bit \<open>v\<close> of \<open>rows[r]\<close> is set exactly when the non-zero value \<open>v\<close> stands in row \<open>r\<close>;
  likewise for the columns and the boxes.
\<close>

definition masksOk :: "Solver \<Rightarrow> bool" where
  "masksOk s =
     (length (rows s) = 9 \<and> length (cols s) = 9 \<and> length (boxes s) = 9
    \<and> (\<forall>r<9. \<forall>v. bit (rows s ! r) v \<longleftrightarrow> v \<noteq> 0 \<and> (\<exists>c<9. cell (board s) r c = int v))
    \<and> (\<forall>c<9. \<forall>v. bit (cols s ! c) v \<longleftrightarrow> v \<noteq> 0 \<and> (\<exists>r<9. cell (board s) r c = int v))
    \<and> (\<forall>k<9. \<forall>v. bit (boxes s ! k) v \<longleftrightarrow>
           v \<noteq> 0 \<and> (\<exists>r<9. \<exists>c<9. boxOf r c = k \<and> cell (board s) r c = int v)))"

definition typedArrays :: "Solver \<Rightarrow> bool" where
  "typedArrays s = (length (rows s) = 9 \<and> length (cols s) = 9 \<and> length (boxes s) = 9)"


definition bitPost :: "Solver \<Rightarrow> bool \<Rightarrow> Solver \<Rightarrow> bool" where
  "bitPost s ok s' =
     (searchPost (board s) (solutionSteps s) ok s'
      \<and> (\<not> ok \<longrightarrow> rows s' = rows s \<and> cols s' = cols s \<and> boxes s' = boxes s))"


section \<open>Dancing links\<close>

definition emptyMatrix :: Matrix where
  "emptyMatrix = \<lparr>left = (\<lambda>_. 0), right = (\<lambda>_. 0), up = (\<lambda>_. 0), down = (\<lambda>_. 0),
     column = (\<lambda>_. 0), colSize = (\<lambda>_. 0), nodeRow = (\<lambda>_. 0), nodeCol = (\<lambda>_. 0),
     nodeNum = (\<lambda>_. 0), nextId = 0\<rparr>"

text \<open>\<^verbatim>\<open>new DLXNode(column)\<close>: the node is linked to itself in the four directions.\<close>

definition newDLXNode :: "nat \<Rightarrow> Matrix \<Rightarrow> nat \<times> Matrix" where
  "newDLXNode c m =
     (let n = nextId m
      in (n, m\<lparr>left := (left m)(n := n), right := (right m)(n := n),
               up := (up m)(n := n), down := (down m)(n := n),
               column := (column m)(n := c),
               nodeRow := (nodeRow m)(n := 0), nodeCol := (nodeCol m)(n := 0),
               nodeNum := (nodeNum m)(n := 0), nextId := Suc n\<rparr>))"

text \<open>\<^verbatim>\<open>new ColumnNode(name)\<close>: a node that is its own column, with size 0.\<close>

definition newColumnNode :: "Matrix \<Rightarrow> nat \<times> Matrix" where
  "newColumnNode m =
     (let (n, m1) = newDLXNode 0 m
      in (n, m1\<lparr>colSize := (colSize m1)(n := 0), column := (column m1)(n := n)\<rparr>))"

text \<open>\<^verbatim>\<open>addNode(column, row, col, num)\<close>: the new node goes to the bottom of its column.\<close>

definition addNode :: "nat \<Rightarrow> nat \<Rightarrow> nat \<Rightarrow> int \<Rightarrow> Matrix \<Rightarrow> nat \<times> Matrix" where
  "addNode colm r c num m =
     (let (node, m1) = newDLXNode colm m;
          m2 = m1\<lparr>nodeRow := (nodeRow m1)(node := r), nodeCol := (nodeCol m1)(node := c),
                  nodeNum := (nodeNum m1)(node := num)\<rparr>;
          m3 = m2\<lparr>up := (up m2)(node := up m2 colm)\<rparr>;
          m4 = m3\<lparr>down := (down m3)(node := colm)\<rparr>;
          m5 = m4\<lparr>down := (down m4)(up m4 colm := node)\<rparr>;
          m6 = m5\<lparr>up := (up m5)(colm := node)\<rparr>
      in (node, m6\<lparr>colSize := (colSize m6)(colm := colSize m6 colm + 1)\<rparr>))"

text \<open>
  \<^verbatim>\<open>addRow(row, col, num)\<close>: four nodes, in the columns of the cell, of the row and the
  number, of the column and the number, of the box and the number, linked in a ring.
\<close>

definition linkRow :: "nat list \<Rightarrow> Matrix \<Rightarrow> Matrix" where
  "linkRow ns m =
     foldl (\<lambda>m i. let next = (i + 1) mod 4;
                      m1 = m\<lparr>right := (right m)(ns ! i := ns ! next)\<rparr>
                  in m1\<lparr>left := (left m1)(ns ! next := ns ! i)\<rparr>)
       m [0..<4]"

definition addRow :: "nat \<Rightarrow> nat \<Rightarrow> int \<Rightarrow> Solver \<Rightarrow> Solver" where
  "addRow r c num s =
     (let box = boxOf r c;
          cellIx = int r * 9 + int c;
          rowNum = int r * 9 + (num - 1);
          colNum = int c * 9 + (num - 1);
          boxNum = int box * 9 + (num - 1);
          (n0, m0) = addNode (columns s ! nat cellIx) r c num (nodes s);
          (n1, m1) = addNode (columns s ! nat (81 + rowNum)) r c num m0;
          (n2, m2) = addNode (columns s ! nat (162 + colNum)) r c num m1;
          (n3, m3) = addNode (columns s ! nat (243 + boxNum)) r c num m2
      in s\<lparr>nodes := linkRow [n0, n1, n2, n3] m3\<rparr>)"

text \<open>
  \<^verbatim>\<open>createMatrix\<close>. The header and the columns are new objects, so nothing of an
  earlier matrix can be reached any more; the store starts empty again.
\<close>

definition addColumn :: "Solver \<Rightarrow> Solver" where
  "addColumn s =
     (let (colm, m1) = newColumnNode (nodes s);
          h = header s;
          m2 = m1\<lparr>left := (left m1)(colm := left m1 h)\<rparr>;
          m3 = m2\<lparr>right := (right m2)(colm := h)\<rparr>;
          m4 = m3\<lparr>right := (right m3)(left m3 h := colm)\<rparr>;
          m5 = m4\<lparr>left := (left m4)(h := colm)\<rparr>
      in s\<lparr>columns := columns s @ [colm], nodes := m5\<rparr>)"

definition addCellRows :: "Solver \<Rightarrow> nat \<times> nat \<Rightarrow> Solver" where
  "addCellRows s = (\<lambda>(r, c).
     let value = cell (board s) r c
     in if value = 0 then foldl (\<lambda>t num. addRow r c num t) s [1..9]
        else addRow r c value s)"

definition createMatrix :: "Solver \<Rightarrow> Solver" where
  "createMatrix s =
     (let (h, m) = newColumnNode emptyMatrix;
          s1 = s\<lparr>header := h, columns := [], nodes := m\<rparr>;
          s2 = foldl (\<lambda>t i. addColumn t) s1 [0..<324]
      in foldl addCellRows s2 positions)"

text \<open>
  \<^verbatim>\<open>cover(column)\<close>. The loops follow pointers, so each is a function that has a value
  only when the loop ends.
\<close>

definition unlinkNode :: "nat \<Rightarrow> Matrix \<Rightarrow> Matrix" where
  "unlinkNode x m =
     (let m1 = m\<lparr>up := (up m)(down m x := up m x)\<rparr>;
          m2 = m1\<lparr>down := (down m1)(up m1 x := down m1 x)\<rparr>
      in m2\<lparr>colSize := (colSize m2)(column m2 x := colSize m2 (column m2 x) - 1)\<rparr>)"

partial_function (option) cover_row :: "nat \<Rightarrow> nat \<Rightarrow> Matrix \<Rightarrow> Matrix option" where
  "cover_row rw r m =
     (if r = rw then Some m
      else (let m1 = unlinkNode r m in cover_row rw (right m1 r) m1))"

partial_function (option) cover_rows :: "nat \<Rightarrow> nat \<Rightarrow> Matrix \<Rightarrow> Matrix option" where
  "cover_rows colm rw m =
     (if rw = colm then Some m
      else (case cover_row rw (right m rw) m of
              None \<Rightarrow> None
            | Some m1 \<Rightarrow> cover_rows colm (down m1 rw) m1))"

definition cover :: "nat \<Rightarrow> Matrix \<Rightarrow> Matrix option" where
  "cover colm m =
     (let m1 = m\<lparr>left := (left m)(right m colm := left m colm)\<rparr>;
          m2 = m1\<lparr>right := (right m1)(left m1 colm := right m1 colm)\<rparr>
      in cover_rows colm (down m2 colm) m2)"

text \<open>\<^verbatim>\<open>uncover(column)\<close>.\<close>

definition relinkNode :: "nat \<Rightarrow> Matrix \<Rightarrow> Matrix" where
  "relinkNode x m =
     (let m1 = m\<lparr>colSize := (colSize m)(column m x := colSize m (column m x) + 1)\<rparr>;
          m2 = m1\<lparr>up := (up m1)(down m1 x := x)\<rparr>
      in m2\<lparr>down := (down m2)(up m2 x := x)\<rparr>)"

partial_function (option) uncover_row :: "nat \<Rightarrow> nat \<Rightarrow> Matrix \<Rightarrow> Matrix option" where
  "uncover_row rw l m =
     (if l = rw then Some m
      else (let m1 = relinkNode l m in uncover_row rw (left m1 l) m1))"

partial_function (option) uncover_rows :: "nat \<Rightarrow> nat \<Rightarrow> Matrix \<Rightarrow> Matrix option" where
  "uncover_rows colm rw m =
     (if rw = colm then Some m
      else (case uncover_row rw (left m rw) m of
              None \<Rightarrow> None
            | Some m1 \<Rightarrow> uncover_rows colm (up m1 rw) m1))"

definition uncover :: "nat \<Rightarrow> Matrix \<Rightarrow> Matrix option" where
  "uncover colm m =
     (case uncover_rows colm (up m colm) m of
        None \<Rightarrow> None
      | Some m1 \<Rightarrow>
          (let m2 = m1\<lparr>left := (left m1)(right m1 colm := colm)\<rparr>
           in Some (m2\<lparr>right := (right m2)(left m2 colm := colm)\<rparr>)))"

text \<open>
  The choice of the column in \<^verbatim>\<open>searchDLX\<close>: the loop over the header list, with its
  \<^verbatim>\<open>break\<close> at size 1.
\<close>

partial_function (option) chooseColumn_for ::
    "nat \<Rightarrow> nat \<Rightarrow> nat \<Rightarrow> int \<Rightarrow> Matrix \<Rightarrow> (nat \<times> int) option" where
  "chooseColumn_for h colm minColumn minSize m =
     (if colm = h then Some (minColumn, minSize)
      else if colSize m colm < minSize then
        (if colSize m colm = 1 then Some (colm, colSize m colm)
         else chooseColumn_for h (right m colm) colm (colSize m colm) m)
      else chooseColumn_for h (right m colm) minColumn minSize m)"

definition chooseColumn :: "nat \<Rightarrow> Matrix \<Rightarrow> (nat \<times> int) option" where
  "chooseColumn h m =
     (let minColumn = right m h; minSize = colSize m minColumn
      in chooseColumn_for h (right m minColumn) minColumn minSize m)"

text \<open>
  The loops \<^verbatim>\<open>for (right = row.right; right !== row; right = right.right) cover(right.column)\<close>
  and its mirror with \<^verbatim>\<open>uncover\<close>.
\<close>

partial_function (option) coverOthers :: "nat \<Rightarrow> nat \<Rightarrow> Matrix \<Rightarrow> Matrix option" where
  "coverOthers rw r m =
     (if r = rw then Some m
      else (case cover (column m r) m of
              None \<Rightarrow> None
            | Some m1 \<Rightarrow> coverOthers rw (right m1 r) m1))"

partial_function (option) uncoverOthers :: "nat \<Rightarrow> nat \<Rightarrow> Matrix \<Rightarrow> Matrix option" where
  "uncoverOthers rw l m =
     (if l = rw then Some m
      else (case uncover (column m l) m of
              None \<Rightarrow> None
            | Some m1 \<Rightarrow> uncoverOthers rw (left m1 l) m1))"

text \<open>
  \<^verbatim>\<open>searchDLX\<close>. The first argument bounds the number of nested calls and loop
  rounds; \<open>searchDLX_rows\<close> is the loop over the rows of the chosen column. The depth
  \<^verbatim>\<open>k\<close> of the source is never read and is left out.
\<close>

definition recordStep :: "nat \<Rightarrow> Solver \<Rightarrow> Solver" where
  "recordStep rw s =
     (let m = nodes s; r = nodeRow m rw; c = nodeCol m rw; num = nodeNum m rw;
          s1 = (if cell (board s) r c = 0
                then s\<lparr>solutionSteps := solutionSteps s @
                       [\<lparr>stepRow = r, stepCol = c,
                         testedValues = currentTestedValues s, finalValue = num\<rparr>]\<rparr>
                else s)
      in s1\<lparr>board := setCell (board s1) r c num\<rparr>)"

definition backtrackStep :: "nat \<Rightarrow> Solver \<Rightarrow> Solver" where
  "backtrackStep rw s =
     (let m = nodes s; r = nodeRow m rw; c = nodeCol m rw; num = nodeNum m rw
      in if cell (board s) r c = num then
           (let s1 = s\<lparr>board := setCell (board s) r c 0\<rparr>
            in if length (solutionSteps s1) > 0
               then s1\<lparr>solutionSteps := butlast (solutionSteps s1)\<rparr> else s1)
         else s)"

fun searchDLX :: "nat \<Rightarrow> Solver \<Rightarrow> (bool \<times> Solver) option"
  and searchDLX_rows :: "nat \<Rightarrow> nat \<Rightarrow> nat \<Rightarrow> Solver \<Rightarrow> (bool \<times> Solver) option"
where
  "searchDLX 0 s = None"
| "searchDLX (Suc k) s =
     (if right (nodes s) (header s) = header s then Some (True, s)
      else
        (case chooseColumn (header s) (nodes s) of
           None \<Rightarrow> None
         | Some (minColumn, minSize) \<Rightarrow>
             if minSize = 0 then Some (False, s)
             else
               (case cover minColumn (nodes s) of
                  None \<Rightarrow> None
                | Some m1 \<Rightarrow>
                    searchDLX_rows k minColumn (down m1 minColumn)
                      (s\<lparr>nodes := m1, currentTestedValues := []\<rparr>))))"
| "searchDLX_rows 0 minColumn rw s = None"
| "searchDLX_rows (Suc k) minColumn rw s =
     (if rw = minColumn then
        (case uncover minColumn (nodes s) of
           None \<Rightarrow> None
         | Some m1 \<Rightarrow> Some (False, s\<lparr>nodes := m1\<rparr>))
      else
        (let m = nodes s; r = nodeRow m rw; c = nodeCol m rw; num = nodeNum m rw
         in if cell (board s) r c \<noteq> 0 \<and> cell (board s) r c \<noteq> num
            then searchDLX_rows k minColumn (down m rw) s
            else
              (let s1 = s\<lparr>currentTestedValues := currentTestedValues s @ [num]\<rparr>
               in case coverOthers rw (right m rw) m of
                    None \<Rightarrow> None
                  | Some m2 \<Rightarrow>
                      (case searchDLX k (recordStep rw (s1\<lparr>nodes := m2\<rparr>)) of
                         None \<Rightarrow> None
                       | Some (ok, s5) \<Rightarrow>
                           if ok then Some (True, s5)
                           else
                             (let s6 = backtrackStep rw s5
                              in case uncoverOthers rw (left (nodes s6) rw) (nodes s6) of
                                   None \<Rightarrow> None
                                 | Some m7 \<Rightarrow>
                                     searchDLX_rows k minColumn (down m7 rw)
                                       (s6\<lparr>nodes := m7\<rparr>))))))"

definition solveDLX :: "nat \<Rightarrow> Solver \<Rightarrow> (bool \<times> Solver) option" where
  "solveDLX k s = searchDLX k (createMatrix s)"

section \<open>The public methods\<close>

text \<open>The constructor of \<^verbatim>\<open>SudokuSolver\<close>.\<close>

definition newSolver :: Solver where
  "newSolver =
     (let (h, m) = newColumnNode emptyMatrix
      in \<lparr>board = replicate 9 (replicate 9 0), solutionSteps = [], header = h, columns = [],
          nodes = m, rows = replicate 9 0, cols = replicate 9 0, boxes = replicate 9 0,
          stats = \<lparr>algorithm = [], steps = 0\<rparr>, currentTestedValues = []\<rparr>)"

text \<open>
  The \<^verbatim>\<open>switch\<close> of \<^verbatim>\<open>solve\<close>: the search that runs and the value of the local
  \<^verbatim>\<open>success\<close>. The first argument is the bound handed to the search.
\<close>

definition runAlgorithm :: "nat \<Rightarrow> SolverAlgorithm \<Rightarrow> Solver \<Rightarrow> (bool \<times> Solver) option" where
  "runAlgorithm k alg s =
     (case alg of
        DLX \<Rightarrow> solveDLX k s
      | BACKTRACK \<Rightarrow> solveBacktrack k s
      | SIMPLE \<Rightarrow> solveSimple k s)"

text \<open>
  \<^verbatim>\<open>solve(algorithm)\<close> returns the statistics; the value of \<^verbatim>\<open>success\<close> is not part
  of them.
\<close>

definition solve :: "nat \<Rightarrow> SolverAlgorithm \<Rightarrow> Solver \<Rightarrow> (SolverStats \<times> Solver) option" where
  "solve k alg s =
     (case runAlgorithm k alg (s\<lparr>solutionSteps := []\<rparr>) of
        None \<Rightarrow> None
      | Some (success, s1) \<Rightarrow>
          (let st = \<lparr>algorithm = algorithmName alg, steps = length (solutionSteps s1)\<rparr>
           in Some (st, s1\<lparr>stats := st\<rparr>)))"

lemma distinct_positions: "distinct positions"
  by (simp add: positions_def distinct_product)

lemma in_positions: "(i, j) \<in> set positions \<longleftrightarrow> i < 9 \<and> j < 9"
  by (auto simp: positions_def)

lemma box_scan:
  "list_ex (\<lambda>i. list_ex (\<lambda>j. P ((r div 3) * 3 + i) ((c div 3) * 3 + j)) [0..<3]) [0..<3]
   \<longleftrightarrow> (\<exists>i j. i div 3 = r div 3 \<and> j div 3 = c div 3 \<and> P i j)"
  (is "?L \<longleftrightarrow> ?R")
proof
  assume ?L
  then obtain i j where ij: "i < 3" "j < 3" "P ((r div 3) * 3 + i) ((c div 3) * 3 + j)"
    by (auto simp: list_ex_iff)
  have "((r div 3) * 3 + i) div 3 = r div 3" "((c div 3) * 3 + j) div 3 = c div 3"
    using ij by simp_all
  with ij(3) show ?R by blast
next
  assume ?R
  then obtain i j where ij: "i div 3 = r div 3" "j div 3 = c div 3" "P i j" by blast
  have "i = (r div 3) * 3 + i mod 3" "j = (c div 3) * 3 + j mod 3"
    using ij(1,2) by (metis div_mult_mod_eq)+
  moreover have "i mod 3 < 3" "j mod 3 < 3" by simp_all
  ultimately have "\<exists>a<3. \<exists>b<3. P ((r div 3) * 3 + a) ((c div 3) * 3 + b)"
    using ij(3) by metis
  then show ?L unfolding list_ex_iff set_upt by (meson atLeastLessThan_iff le0)
qed

lemma conflictAnywhere_iff:
  "conflictAnywhere b r c v \<longleftrightarrow> (\<exists>i j. i < 9 \<and> j < 9 \<and> sameUnit r c i j \<and> cell b i j = v)"
  by (auto simp: conflictAnywhere_def unitCells_def list_ex_iff in_positions)

lemma div3_lt9: "r < 9 \<Longrightarrow> i div 3 = r div 3 \<Longrightarrow> i < (9::nat)"
  by arith

lemma unit_scan:
  assumes "r < 9" "c < 9"
  shows "((\<exists>x<9. cell b r x = v) \<or> (\<exists>x<9. cell b x c = v) \<or>
        (\<exists>i j. i div 3 = r div 3 \<and> j div 3 = c div 3 \<and> cell b i j = v))
     \<longleftrightarrow> (\<exists>i j. i < 9 \<and> j < 9 \<and> sameUnit r c i j \<and> cell b i j = v)"
  (is "?A \<longleftrightarrow> ?B")
proof
  assume ?A
  then consider (row) x where "x < 9" "cell b r x = v"
    | (col) x where "x < 9" "cell b x c = v"
    | (box) i j where "i div 3 = r div 3" "j div 3 = c div 3" "cell b i j = v"
    by blast
  then show ?B
  proof cases
    case row
    with assms have "r < 9 \<and> x < 9 \<and> sameUnit r c r x \<and> cell b r x = v"
      by (simp add: sameUnit_def)
    then show ?thesis by blast
  next
    case col
    with assms have "x < 9 \<and> c < 9 \<and> sameUnit r c x c \<and> cell b x c = v"
      by (simp add: sameUnit_def)
    then show ?thesis by blast
  next
    case box
    with assms have "i < 9 \<and> j < 9 \<and> sameUnit r c i j \<and> cell b i j = v"
      by (simp add: sameUnit_def div3_lt9)
    then show ?thesis by blast
  qed
next
  assume ?B
  then obtain i j where ij: "i < 9" "j < 9" "sameUnit r c i j" "cell b i j = v" by blast
  from ij(3) consider "i = r" | "j = c" | "i div 3 = r div 3 \<and> j div 3 = c div 3"
    by (auto simp: sameUnit_def)
  then show ?A
  proof cases
    case 1 with ij show ?thesis by blast
  next
    case 2 with ij show ?thesis by blast
  next
    case 3 with ij show ?thesis by blast
  qed
qed

lemma isValid_iff:
  assumes "r < 9" "c < 9"
  shows "isValid b r c v \<longleftrightarrow> \<not> conflictAnywhere b r c v"
proof -
  have "isValid b r c v \<longleftrightarrow>
     \<not> ((\<exists>x<9. cell b r x = v) \<or> (\<exists>x<9. cell b x c = v) \<or>
        (\<exists>i j. i div 3 = r div 3 \<and> j div 3 = c div 3 \<and> cell b i j = v))"
    unfolding isValid_def Let_def box_scan[of "\<lambda>i j. cell b i j = v" r c]
    by (auto simp: list_ex_iff)
  then show ?thesis
    unfolding conflictAnywhere_iff unit_scan[OF assms] .
qed

lemma conflictElsewhere_iff:
  "conflictElsewhere b r c v \<longleftrightarrow>
     (\<exists>i j. i < 9 \<and> j < 9 \<and> sameUnit r c i j \<and> (i, j) \<noteq> (r, c) \<and> cell b i j = v)"
  by (auto simp: conflictElsewhere_def unitCells_def list_ex_iff in_positions)

lemma conflict_other_cell:
  "cell b r c \<noteq> v \<Longrightarrow> conflictAnywhere b r c v = conflictElsewhere b r c v"
  unfolding conflictAnywhere_iff conflictElsewhere_iff by auto

lemma isSafe_isValid: "isSafe b r c v = isValid b r c v"
  by (simp add: isSafe_def isValid_def)


lemma is9x9_nth: "is9x9 b \<Longrightarrow> r < 9 \<Longrightarrow> length (b ! r) = 9"
  by (simp add: is9x9_def list_all_length)

lemma is9x9_length: "is9x9 b \<Longrightarrow> length b = 9"
  by (simp add: is9x9_def)

lemma cell_setCell:
  "is9x9 b \<Longrightarrow> r < 9 \<Longrightarrow> c < 9 \<Longrightarrow>
   cell (setCell b r c v) i j = (if i = r \<and> j = c then v else cell b i j)"
  by (cases "i = r") (auto simp: cell_def setCell_def is9x9_nth is9x9_length nth_list_update)

lemma is9x9_setCell: "is9x9 b \<Longrightarrow> is9x9 (setCell b r c v)"
proof (cases "r < 9")
  case True
  assume "is9x9 b"
  with True show ?thesis
    by (auto simp: is9x9_def setCell_def list_all_length nth_list_update)
next
  case False
  assume "is9x9 b"
  with False show ?thesis
    by (simp add: is9x9_def setCell_def list_update_beyond)
qed


lemma setCell_undo:
  "is9x9 b \<Longrightarrow> r < 9 \<Longrightarrow> c < 9 \<Longrightarrow> cell b r c = 0 \<Longrightarrow> setCell (setCell b r c v) r c 0 = b"
proof -
  assume a: "is9x9 b" "r < 9" "c < 9" "cell b r c = 0"
  have "(b ! r)[c := 0] = b ! r" using a(4) unfolding cell_def by (metis list_update_id)
  then show ?thesis
    using a by (simp add: setCell_def is9x9_length list_update_id)
qed

lemma firstEmpty_None: "firstEmpty b = None \<longleftrightarrow> emptyCells b = []"
  by (auto simp: firstEmpty_def emptyCells_def find_None_iff filter_empty_conv)

lemma firstEmpty_Some:
  assumes "firstEmpty b = Some (r, c)"
  shows "r < 9" "c < 9" "cell b r c = 0"
    "\<exists>pre post. positions = pre @ (r, c) # post \<and> (\<forall>(i, j) \<in> set pre. cell b i j \<noteq> 0)"
proof -
  from assms obtain n where n: "n < length positions" "positions ! n = (r, c)" "cell b r c = 0"
    "\<forall>m<n. \<not> (case positions ! m of (i, j) \<Rightarrow> cell b i j = 0)"
    unfolding firstEmpty_def find_Some_iff by auto
  from n(1,2) have "(r, c) \<in> set positions" by (metis nth_mem)
  then show "r < 9" "c < 9" by (simp_all add: in_positions)
  show "cell b r c = 0" by (rule n(3))
  have "positions = take n positions @ (r, c) # drop (Suc n) positions"
    using n(1,2) by (metis id_take_nth_drop)
  moreover have "\<forall>(i, j) \<in> set (take n positions). cell b i j \<noteq> 0"
    using n(4) n(1) by (fastforce simp: in_set_conv_nth)
  ultimately show "\<exists>pre post. positions = pre @ (r, c) # post \<and> (\<forall>(i, j) \<in> set pre. cell b i j \<noteq> 0)"
    by blast
qed

lemma emptyCells_place:
  assumes "is9x9 b" "firstEmpty b = Some (r, c)" "v \<noteq> 0"
  shows "emptyCells b = (r, c) # emptyCells (setCell b r c v)"
proof -
  note fe = firstEmpty_Some[OF assms(2)]
  from fe(4) obtain pre post where pp: "positions = pre @ (r, c) # post"
    "\<forall>(i, j) \<in> set pre. cell b i j \<noteq> 0" by blast
  have notin: "(r, c) \<notin> set pre" "(r, c) \<notin> set post"
    using distinct_positions unfolding pp(1) by auto
  have cs: "\<And>i j. cell (setCell b r c v) i j = (if i = r \<and> j = c then v else cell b i j)"
    by (rule cell_setCell[OF assms(1) fe(1) fe(2)])
  have pre0: "filter (\<lambda>(i, j). cell b i j = 0) pre = []"
    using pp(2) by (auto simp: filter_empty_conv)
  have pre1: "filter (\<lambda>(i, j). cell (setCell b r c v) i j = 0) pre = []"
    using pp(2) notin(1) assms(3) by (auto simp: filter_empty_conv cs)
  have post1: "filter (\<lambda>(i, j). cell (setCell b r c v) i j = 0) post
             = filter (\<lambda>(i, j). cell b i j = 0) post"
    using notin(2) by (intro filter_cong) (auto simp: cs)
  show ?thesis
    unfolding emptyCells_def pp(1) using pre0 pre1 post1 fe(3) assms(3) by (simp add: cs)
qed


lemma set_boxCells:
  "set (boxCells k) = {(i, j). i div 3 = k div 3 \<and> j div 3 = k mod 3}"
proof -
  have "\<And>i j. (i, j) \<in> set (boxCells k) \<longleftrightarrow> i div 3 = k div 3 \<and> j div 3 = k mod 3"
  proof
    fix i j assume "(i, j) \<in> set (boxCells k)"
    then obtain a b where "a < 3" "b < 3" "i = 3 * (k div 3) + a" "j = 3 * (k mod 3) + b"
      by (auto simp: boxCells_def)
    then show "i div 3 = k div 3 \<and> j div 3 = k mod 3" by simp
  next
    fix i j assume a: "i div 3 = k div 3 \<and> j div 3 = k mod 3"
    have "i = 3 * (i div 3) + i mod 3" "j = 3 * (j div 3) + j mod 3" by simp_all
    with a have "i = 3 * (k div 3) + i mod 3" "j = 3 * (k mod 3) + j mod 3" by simp_all
    moreover have "i mod 3 < 3" "j mod 3 < 3" by simp_all
    ultimately have "(i, j) \<in> (\<lambda>(a, b). (3 * (k div 3) + a, 3 * (k mod 3) + b)) ` ({0..<3} \<times> {0..<3})"
      by (metis (mono_tags, lifting) SigmaI atLeastLessThan_iff case_prod_conv image_eqI le0)
    then show "(i, j) \<in> set (boxCells k)" by (simp add: boxCells_def)
  qed
  then show ?thesis by auto
qed

lemma distinct_boxCells: "distinct (boxCells k)"
  unfolding boxCells_def
  by (auto simp: distinct_map distinct_product inj_on_def)

lemma noRepeats_pairwise:
  "noRepeats b \<longleftrightarrow>
     (\<forall>i<9. \<forall>j<9. \<forall>i'<9. \<forall>j'<9. (i, j) \<noteq> (i', j') \<longrightarrow> sameUnit i j i' j' \<longrightarrow>
        cell b i j \<noteq> cell b i' j')"
  (is "?L \<longleftrightarrow> ?R")
proof
  assume L: ?L
  have rows: "\<And>r c c'. r < 9 \<Longrightarrow> c < 9 \<Longrightarrow> c' < 9 \<Longrightarrow> c \<noteq> c' \<Longrightarrow> cell b r c \<noteq> cell b r c'"
    using L by (auto simp: noRepeats_def list_all_iff distinct_map inj_on_def)
  have cols: "\<And>r r' c. r < 9 \<Longrightarrow> r' < 9 \<Longrightarrow> c < 9 \<Longrightarrow> r \<noteq> r' \<Longrightarrow> cell b r c \<noteq> cell b r' c"
    using L by (auto simp: noRepeats_def list_all_iff distinct_map inj_on_def)
  have boxes: "\<And>k p q. k < 9 \<Longrightarrow> p \<in> set (boxCells k) \<Longrightarrow> q \<in> set (boxCells k) \<Longrightarrow> p \<noteq> q
        \<Longrightarrow> cell b (fst p) (snd p) \<noteq> cell b (fst q) (snd q)"
  proof -
    fix k p q
    assume k: "k < (9::nat)" and pq: "p \<in> set (boxCells k)" "q \<in> set (boxCells k)" "p \<noteq> q"
    from L k have "distinct (map (\<lambda>(i, j). cell b i j) (boxCells k))"
      by (simp add: noRepeats_def list_all_iff)
    then have "inj_on (\<lambda>(i, j). cell b i j) (set (boxCells k))"
      by (simp add: distinct_map)
    from inj_onD[OF this _ pq(1,2)] pq(3)
    show "cell b (fst p) (snd p) \<noteq> cell b (fst q) (snd q)"
      by (auto simp: case_prod_beta)
  qed
  show ?R
  proof (intro allI impI)
    fix i j i' j'
    assume h: "i < 9" "j < 9" "i' < 9" "j' < 9" "(i, j) \<noteq> (i', j')" "sameUnit i j i' j'"
    from h(6) consider "i' = i" | "j' = j" | "i' div 3 = i div 3 \<and> j' div 3 = j div 3"
      by (auto simp: sameUnit_def)
    then show "cell b i j \<noteq> cell b i' j'"
    proof cases
      case 1 with h rows[of i j j'] show ?thesis by auto
    next
      case 2 with h cols[of i i' j] show ?thesis by auto
    next
      case 3
      define k where "k = 3 * (i div 3) + j div 3"
      have lt3: "i div 3 < 3" "j div 3 < 3" using h(1,2) by (simp_all add: div_less_iff_less_mult)
      have k9: "k < 9" using lt3 unfolding k_def by linarith
      have kd: "k div 3 = i div 3" "k mod 3 = j div 3" using lt3 unfolding k_def by simp_all
      have "(i, j) \<in> set (boxCells k)" "(i', j') \<in> set (boxCells k)"
        using 3 kd by (simp_all add: set_boxCells)
      from boxes[OF k9 this h(5)] show ?thesis by simp
    qed
  qed
next
  assume R: ?R
  have Rr: "\<And>i j i' j'. i < 9 \<Longrightarrow> j < 9 \<Longrightarrow> i' < 9 \<Longrightarrow> j' < 9 \<Longrightarrow> (i, j) \<noteq> (i', j')
      \<Longrightarrow> sameUnit i j i' j' \<Longrightarrow> cell b i j \<noteq> cell b i' j'"
    using R by blast
  have r1: "x = y" if "r < 9" "x < 9" "y < 9" "cell b r x = cell b r y" for r x y
  proof (rule ccontr)
    assume "x \<noteq> y"
    then have "(r, x) \<noteq> (r, y)" by simp
    moreover have "sameUnit r x r y" by (simp add: sameUnit_def)
    ultimately show False using Rr[of r x r y] that by simp
  qed
  have r2: "x = y" if "c < 9" "x < 9" "y < 9" "cell b x c = cell b y c" for c x y
  proof (rule ccontr)
    assume "x \<noteq> y"
    then have "(x, c) \<noteq> (y, c)" by simp
    moreover have "sameUnit x c y c" by (simp add: sameUnit_def)
    ultimately show False using Rr[of x c y c] that by simp
  qed
  have 1: "list_all (\<lambda>r. distinct (map (\<lambda>c. cell b r c) [0..<9])) [0..<9]"
    using r1 by (auto simp: list_all_iff distinct_map inj_on_def)
  have 2: "list_all (\<lambda>c. distinct (map (\<lambda>r. cell b r c) [0..<9])) [0..<9]"
    using r2 by (auto simp: list_all_iff distinct_map inj_on_def)
  have 3: "list_all (\<lambda>k. distinct (map (\<lambda>(i, j). cell b i j) (boxCells k))) [0..<9]"
  proof -
    have inj: "p = q" if k: "k < (9::nat)" and p: "p \<in> set (boxCells k)" "q \<in> set (boxCells k)"
        and eq: "(case p of (i, j) \<Rightarrow> cell b i j) = (case q of (i, j) \<Rightarrow> cell b i j)" for k p q
    proof (rule ccontr)
      assume ne: "p \<noteq> q"
      obtain i j i' j' where pq: "p = (i, j)" "q = (i', j')" by (metis surj_pair)
      from p have d: "i div 3 = k div 3" "j div 3 = k mod 3" "i' div 3 = k div 3" "j' div 3 = k mod 3"
        by (simp_all add: set_boxCells pq)
      have "k div 3 < 3" "k mod 3 < 3" using k by (simp_all add: div_less_iff_less_mult)
      with d have "i div 3 < 3" "j div 3 < 3" "i' div 3 < 3" "j' div 3 < 3" by simp_all
      then have "i < 9" "j < 9" "i' < 9" "j' < 9" by (simp_all add: div_less_iff_less_mult)
      moreover have "sameUnit i j i' j'" using d by (simp add: sameUnit_def)
      ultimately show False using Rr[of i j i' j'] ne eq by (simp add: pq)
    qed
    show ?thesis
      unfolding list_all_iff distinct_map inj_on_def
      using inj distinct_boxCells by auto
  qed
  from 1 2 3 show ?L by (simp add: noRepeats_def)
qed

lemma filledIn_iff: "filledIn b \<longleftrightarrow> (\<forall>i<9. \<forall>j<9. 1 \<le> cell b i j \<and> cell b i j \<le> 9)"
  by (auto simp: filledIn_def list_all_iff in_positions)

lemma keepsGivens_iff:
  "keepsGivens g b \<longleftrightarrow> (\<forall>i<9. \<forall>j<9. cell g i j = 0 \<or> cell b i j = cell g i j)"
proof -
  have "keepsGivens g b \<longleftrightarrow> (\<forall>p \<in> set positions. cell g (fst p) (snd p) = 0
           \<or> cell b (fst p) (snd p) = cell g (fst p) (snd p))"
    by (simp add: keepsGivens_def list_all_iff case_prod_beta)
  also have "\<dots> \<longleftrightarrow> (\<forall>i<9. \<forall>j<9. cell g i j = 0 \<or> cell b i j = cell g i j)"
  proof (intro iffI allI impI ballI)
    fix i j :: nat assume "\<forall>p \<in> set positions. cell g (fst p) (snd p) = 0
           \<or> cell b (fst p) (snd p) = cell g (fst p) (snd p)" "i < 9" "j < 9"
    then show "cell g i j = 0 \<or> cell b i j = cell g i j"
      using in_positions[of i j] by (metis fst_conv snd_conv)
  next
    fix p assume a: "\<forall>i<9. \<forall>j<9. cell g i j = 0 \<or> cell b i j = cell g i j" "p \<in> set positions"
    then have "fst p < 9" "snd p < 9" using in_positions[of "fst p" "snd p"] by simp_all
    with a(1) show "cell g (fst p) (snd p) = 0 \<or> cell b (fst p) (snd p) = cell g (fst p) (snd p)"
      by blast
  qed
  finally show ?thesis .
qed

lemma filled_consistent_noRepeats:
  assumes "filledIn b" "consistent b"
  shows "noRepeats b"
  unfolding noRepeats_pairwise
proof (intro allI impI)
  fix i j i' j'
  assume h: "i < (9::nat)" "j < (9::nat)" "i' < (9::nat)" "j' < (9::nat)"
    "(i, j) \<noteq> (i', j')" "sameUnit i j i' j'"
  from assms(1) h(1,2) have "1 \<le> cell b i j" by (simp add: filledIn_iff)
  then have "cell b i j \<noteq> 0" by simp
  with assms(2) h show "cell b i j \<noteq> cell b i' j'" unfolding consistent_def by blast
qed


lemma sameUnit_sym: "sameUnit i j i' j' = sameUnit i' j' i j"
  by (auto simp: sameUnit_def)

lemma isValid_no_conflict:
  assumes "r < 9" "c < 9" "isValid b r c v" "i < 9" "j < 9" "sameUnit r c i j"
  shows "cell b i j \<noteq> v"
  using assms isValid_iff[of r c b v] unfolding conflictAnywhere_iff by blast

lemma consistent_place:
  assumes b: "is9x9 b" "consistent b" and rc: "r < 9" "c < 9" and v: "isValid b r c v"
  shows "consistent (setCell b r c v)"
  unfolding consistent_def
proof (intro allI impI)
  fix i j i' j'
  assume h: "i < (9::nat)" "j < (9::nat)" "i' < (9::nat)" "j' < (9::nat)" "(i, j) \<noteq> (i', j')"
    "sameUnit i j i' j'" "cell (setCell b r c v) i j \<noteq> 0"
  note cs = cell_setCell[OF b(1) rc]
  show "cell (setCell b r c v) i j \<noteq> cell (setCell b r c v) i' j'"
  proof (cases "(i, j) = (r, c)")
    case True
    then have "(i', j') \<noteq> (r, c)" using h(5) by auto
    moreover have "sameUnit r c i' j'" using h(6) True by simp
    then have "cell b i' j' \<noteq> v" by (rule isValid_no_conflict[OF rc v h(3,4)])
    ultimately show ?thesis using True by (auto simp: cs)
  next
    case False
    note nf = this
    show ?thesis
    proof (cases "(i', j') = (r, c)")
      case True
      have "sameUnit r c i j" using h(6) True by (simp add: sameUnit_sym[of i j])
      then have "cell b i j \<noteq> v" by (rule isValid_no_conflict[OF rc v h(1,2)])
      then show ?thesis using True nf by (auto simp: cs)
    next
      case False
      have "cell b i j \<noteq> 0" using h(7) nf by (auto simp: cs)
      with b(2) h(1-6) have "cell b i j \<noteq> cell b i' j'" unfolding consistent_def by blast
      then show ?thesis using False nf by (auto simp: cs)
    qed
  qed
qed

lemma completion_place:
  assumes b: "is9x9 b" and rc: "r < 9" "c < 9" "cell b r c = 0" and sol: "legalCompletion b sol"
  shows "isValid b r c (cell sol r c)" "legalCompletion (setCell b r c (cell sol r c)) sol"
proof -
  from sol have f: "filledIn sol" and nr: "noRepeats sol" and kg: "keepsGivens b sol" and s9: "is9x9 sol"
    by (simp_all add: legalCompletion_def)
  have v1: "1 \<le> cell sol r c" using f rc(1,2) by (simp add: filledIn_iff)
  have "\<not> conflictAnywhere b r c (cell sol r c)"
    unfolding conflictAnywhere_iff
  proof
    assume "\<exists>i j. i < 9 \<and> j < 9 \<and> sameUnit r c i j \<and> cell b i j = cell sol r c"
    then obtain i j where ij: "i < 9" "j < 9" "sameUnit r c i j" "cell b i j = cell sol r c" by blast
    have ne: "(r, c) \<noteq> (i, j)" using ij(4) rc(3) v1 by auto
    have "cell b i j \<noteq> 0" using ij(4) v1 by simp
    with kg ij(1,2) have "cell sol i j = cell b i j" unfolding keepsGivens_iff by blast
    with ij(4) have "cell sol r c = cell sol i j" by simp
    moreover from nr rc(1,2) ij(1,2) ne ij(3) have "cell sol r c \<noteq> cell sol i j"
      unfolding noRepeats_pairwise by blast
    ultimately show False by simp
  qed
  then show "isValid b r c (cell sol r c)" by (simp add: isValid_iff[OF rc(1,2)])
  have "keepsGivens (setCell b r c (cell sol r c)) sol"
    using kg unfolding keepsGivens_iff by (auto simp: cell_setCell[OF b rc(1,2)])
  with f nr s9 show "legalCompletion (setCell b r c (cell sol r c)) sol"
    by (simp add: legalCompletion_def)
qed


lemma searchPost_place:
  assumes b: "is9x9 b" and fe: "firstEmpty b = Some (r, c)" and v: "1 \<le> v" "v \<le> 9"
    and cons: "consistent b \<Longrightarrow> consistent (setCell b r c v)"
    and st: "stepRow st = r" "stepCol st = c" "finalValue st = v"
    and post: "searchPost (setCell b r c v) (tr @ [st]) True s'"
  shows "searchPost b tr True s'"
proof -
  note rc = firstEmpty_Some(1-3)[OF fe]
  note cs = cell_setCell[OF b rc(1,2)]
  let ?b' = "setCell b r c v"
  from post obtain new where
    p1: "is9x9 (board s')" and p2: "keepsGivens ?b' (board s')"
    and p3: "\<forall>i<9. \<forall>j<9. cell ?b' i j = 0 \<longrightarrow> 1 \<le> cell (board s') i j \<and> cell (board s') i j \<le> 9"
    and p4: "consistent ?b' \<longrightarrow> consistent (board s')"
    and p5: "solutionSteps s' = (tr @ [st]) @ new" "map stepCell new = emptyCells ?b'"
      "\<forall>x \<in> set new. finalValue x = cell (board s') (stepRow x) (stepCol x)"
    unfolding searchPost_def by auto
  have "cell ?b' r c = 0 \<or> cell (board s') r c = cell ?b' r c"
    using p2 rc(1,2) unfolding keepsGivens_iff by blast
  then have rcv: "cell (board s') r c = v"
    using v(1) by (simp add: cs)
  have k: "keepsGivens b (board s')"
    unfolding keepsGivens_iff
  proof (intro allI impI)
    fix i j assume ij: "i < (9::nat)" "j < (9::nat)"
    show "cell b i j = 0 \<or> cell (board s') i j = cell b i j"
    proof (cases "cell b i j = 0")
      case False
      then have "(i, j) \<noteq> (r, c)" using rc(3) by auto
      then have "cell ?b' i j = cell b i j" by (auto simp: cs)
      with p2 ij False show ?thesis unfolding keepsGivens_iff by metis
    qed simp
  qed
  have vals: "\<forall>i<9. \<forall>j<9. cell b i j = 0 \<longrightarrow> 1 \<le> cell (board s') i j \<and> cell (board s') i j \<le> 9"
  proof (intro allI impI)
    fix i j assume ij: "i < (9::nat)" "j < (9::nat)" "cell b i j = 0"
    show "1 \<le> cell (board s') i j \<and> cell (board s') i j \<le> 9"
    proof (cases "(i, j) = (r, c)")
      case True then show ?thesis using rcv v by simp
    next
      case False
      then have "cell ?b' i j = 0" using ij(3) by (auto simp: cs)
      with p3 ij(1,2) show ?thesis by blast
    qed
  qed
  have e: "emptyCells b = (r, c) # emptyCells ?b'"
    using emptyCells_place[OF b fe, of v] v(1) by simp
  have "solutionSteps s' = tr @ (st # new)" using p5(1) by simp
  moreover have "map stepCell (st # new) = emptyCells b"
    using p5(2) e st by (simp add: stepCell_def)
  moreover have "\<forall>x \<in> set (st # new). finalValue x = cell (board s') (stepRow x) (stepCol x)"
    using p5(3) st rcv by simp
  ultimately have "\<exists>new. solutionSteps s' = tr @ new \<and> map stepCell new = emptyCells b
              \<and> (\<forall>st \<in> set new. finalValue st = cell (board s') (stepRow st) (stepCol st))"
    by blast
  with p1 k vals cons p4 show ?thesis unfolding searchPost_def by simp
qed

lemma searchPost_full:
  assumes "firstEmpty (board s) = None" "is9x9 (board s)"
  shows "searchPost (board s) (solutionSteps s) True s"
proof -
  have e: "emptyCells (board s) = []" using assms(1) by (simp add: firstEmpty_None)
  then have "\<forall>i<9. \<forall>j<9. cell (board s) i j \<noteq> 0"
    by (auto simp: emptyCells_def filter_empty_conv in_positions)
  then show ?thesis
    unfolding searchPost_def using assms(2) e by (simp add: keepsGivens_iff)
qed

lemma solveSimple_for_post:
  assumes IH: "\<And>t. is9x9 (board t) \<Longrightarrow> length (emptyCells (board t)) < k \<Longrightarrow>
      \<exists>ok t'. solveSimple k t = Some (ok, t') \<and> searchPost (board t) (solutionSteps t) ok t'
        \<and> ((\<exists>sol. legalCompletion (board t) sol) \<longrightarrow> ok)"
    and b: "is9x9 (board s)" and fe: "firstEmpty (board s) = Some (r, c)"
    and len: "length (emptyCells (board s)) \<le> k" and nums: "set nums \<subseteq> {1..9}"
  shows "\<exists>ok s'. solveSimple_for k r c nums s = Some (ok, s')
      \<and> searchPost (board s) (solutionSteps s) ok s'
      \<and> ((\<exists>sol. legalCompletion (board s) sol \<and> cell sol r c \<in> set nums) \<longrightarrow> ok)"
  using b fe len nums
proof (induction nums arbitrary: s)
  case Nil
  have "solveSimple_for k r c [] s = Some (False, s) \<and> searchPost (board s) (solutionSteps s) False s
      \<and> ((\<exists>sol. legalCompletion (board s) sol \<and> cell sol r c \<in> set []) \<longrightarrow> False)"
    by (simp add: searchPost_def)
  then show ?case by blast
next
  case (Cons num nums)
  note b = Cons.prems(1) and fe = Cons.prems(2) and len = Cons.prems(3)
  note rc = firstEmpty_Some(1-3)[OF fe]
  have num: "1 \<le> num" "num \<le> 9" and nums: "set nums \<subseteq> {1..9}" using Cons.prems(4) by auto
  let ?s1 = "s\<lparr>currentTestedValues := currentTestedValues s @ [num]\<rparr>"
  show ?case
  proof (cases "isValid (board s) r c num")
    case False
    have eq: "solveSimple_for k r c (num # nums) s = solveSimple_for k r c nums ?s1"
      using False by simp
    have "\<exists>ok s'. solveSimple_for k r c nums ?s1 = Some (ok, s')
      \<and> searchPost (board ?s1) (solutionSteps ?s1) ok s'
      \<and> ((\<exists>sol. legalCompletion (board ?s1) sol \<and> cell sol r c \<in> set nums) \<longrightarrow> ok)"
      by (rule Cons.IH) (use b fe len nums in simp_all)
    then obtain ok s' where r: "solveSimple_for k r c nums ?s1 = Some (ok, s')"
      "searchPost (board s) (solutionSteps s) ok s'"
      "(\<exists>sol. legalCompletion (board s) sol \<and> cell sol r c \<in> set nums) \<longrightarrow> ok"
      by auto
    have "(\<exists>sol. legalCompletion (board s) sol \<and> cell sol r c \<in> set (num # nums)) \<longrightarrow> ok"
    proof
      assume "\<exists>sol. legalCompletion (board s) sol \<and> cell sol r c \<in> set (num # nums)"
      then obtain sol where sol: "legalCompletion (board s) sol" "cell sol r c \<in> set (num # nums)"
        by blast
      have "cell sol r c \<noteq> num"
        using completion_place(1)[OF b rc sol(1)] False by auto
      with sol r(3) show ok by auto
    qed
    with r(1,2) show ?thesis unfolding eq by blast
  next
    case True
    let ?st = "\<lparr>stepRow = r, stepCol = c, testedValues = currentTestedValues s @ [num], finalValue = num\<rparr>"
    let ?s3 = "?s1\<lparr>board := setCell (board s) r c num, solutionSteps := solutionSteps s @ [?st]\<rparr>"
    have e: "emptyCells (board s) = (r, c) # emptyCells (setCell (board s) r c num)"
      using emptyCells_place[OF b fe, of num] num(1) by simp
    have "\<exists>ok t'. solveSimple k ?s3 = Some (ok, t') \<and> searchPost (board ?s3) (solutionSteps ?s3) ok t'
        \<and> ((\<exists>sol. legalCompletion (board ?s3) sol) \<longrightarrow> ok)"
      by (rule IH) (use b len e in \<open>simp_all add: is9x9_setCell\<close>)
    then obtain ok3 s4 where r3: "solveSimple k ?s3 = Some (ok3, s4)"
      "searchPost (setCell (board s) r c num) (solutionSteps s @ [?st]) ok3 s4"
      "(\<exists>sol. legalCompletion (setCell (board s) r c num) sol) \<longrightarrow> ok3"
      by auto
    show ?thesis
    proof (cases ok3)
      case True
      have eq: "solveSimple_for k r c (num # nums) s = Some (True, s4)"
        using \<open>isValid (board s) r c num\<close> r3(1) True by (simp add: Let_def)
      have r3': "searchPost (setCell (board s) r c num) (solutionSteps s @ [?st]) True s4"
        using r3(2) True by simp
      have "searchPost (board s) (solutionSteps s) True s4"
        by (rule searchPost_place[OF b fe num _ _ _ _ r3'])
           (simp_all add: consistent_place[OF b _ rc(1,2) \<open>isValid (board s) r c num\<close>])
      then show ?thesis unfolding eq by blast
    next
      case False
      from r3(2) False have s4: "board s4 = setCell (board s) r c num"
        "solutionSteps s4 = solutionSteps s @ [?st]"
        by (simp_all add: searchPost_def)
      let ?s5 = "s4\<lparr>board := setCell (board s4) r c 0, solutionSteps := butlast (solutionSteps s4)\<rparr>"
      have s5: "board ?s5 = board s" "solutionSteps ?s5 = solutionSteps s"
        using s4 setCell_undo[OF b rc] by simp_all
      have eq: "solveSimple_for k r c (num # nums) s = solveSimple_for k r c nums ?s5"
        using \<open>isValid (board s) r c num\<close> r3(1) False by (simp add: Let_def)
      have "\<exists>ok s'. solveSimple_for k r c nums ?s5 = Some (ok, s')
        \<and> searchPost (board ?s5) (solutionSteps ?s5) ok s'
        \<and> ((\<exists>sol. legalCompletion (board ?s5) sol \<and> cell sol r c \<in> set nums) \<longrightarrow> ok)"
        by (rule Cons.IH) (use b fe len nums s5 in simp_all)
      then obtain ok s' where r: "solveSimple_for k r c nums ?s5 = Some (ok, s')"
        "searchPost (board s) (solutionSteps s) ok s'"
        "(\<exists>sol. legalCompletion (board s) sol \<and> cell sol r c \<in> set nums) \<longrightarrow> ok"
        unfolding s5 by auto
      have "(\<exists>sol. legalCompletion (board s) sol \<and> cell sol r c \<in> set (num # nums)) \<longrightarrow> ok"
      proof
        assume "\<exists>sol. legalCompletion (board s) sol \<and> cell sol r c \<in> set (num # nums)"
        then obtain sol where sol: "legalCompletion (board s) sol" "cell sol r c \<in> set (num # nums)"
          by blast
        have "cell sol r c \<noteq> num"
        proof
          assume "cell sol r c = num"
          with completion_place(2)[OF b rc sol(1)] r3(3) False show False by auto
        qed
        with sol r(3) show ok by auto
      qed
      with r(1,2) show ?thesis unfolding eq by blast
    qed
  qed
qed

lemma solveSimple_post:
  "is9x9 (board s) \<Longrightarrow> length (emptyCells (board s)) < k \<Longrightarrow>
     \<exists>ok s'. solveSimple k s = Some (ok, s') \<and> searchPost (board s) (solutionSteps s) ok s'
        \<and> ((\<exists>sol. legalCompletion (board s) sol) \<longrightarrow> ok)"
proof (induction k arbitrary: s)
  case 0
  then show ?case by simp
next
  case (Suc k)
  show ?case
  proof (cases "firstEmpty (board s)")
    case None
    have "solveSimple (Suc k) s = Some (True, s)" using None by simp
    with searchPost_full[OF None Suc.prems(1)] show ?thesis by blast
  next
    case (Some p)
    obtain r c where p: "p = (r, c)" by (cases p)
    note fe = Some[unfolded p]
    note rc = firstEmpty_Some(1-3)[OF fe]
    let ?s0 = "s\<lparr>currentTestedValues := []\<rparr>"
    have "\<exists>ok s'. solveSimple_for k r c [1..9] ?s0 = Some (ok, s')
      \<and> searchPost (board ?s0) (solutionSteps ?s0) ok s'
      \<and> ((\<exists>sol. legalCompletion (board ?s0) sol \<and> cell sol r c \<in> set [1..9]) \<longrightarrow> ok)"
      by (rule solveSimple_for_post[OF Suc.IH]) (use Suc.prems fe in auto)
    then obtain ok s' where r: "solveSimple_for k r c [1..9] ?s0 = Some (ok, s')"
      "searchPost (board s) (solutionSteps s) ok s'"
      "(\<exists>sol. legalCompletion (board s) sol \<and> cell sol r c \<in> set [1..9]) \<longrightarrow> ok"
      by auto
    have "(\<exists>sol. legalCompletion (board s) sol) \<longrightarrow> ok"
    proof
      assume "\<exists>sol. legalCompletion (board s) sol"
      then obtain sol where sol: "legalCompletion (board s) sol" by blast
      then have "filledIn sol" by (simp add: legalCompletion_def)
      then have "cell sol r c \<in> set [1..9]" using rc(1,2) by (simp add: filledIn_iff)
      with sol r(3) show ok by blast
    qed
    with r(1,2) fe show ?thesis by simp
  qed
qed

definition oneFive :: Board where
  "oneFive = setCell emptyBoard 0 0 5"

text \<open>
  C5, as the code has it. For a row and a column in 0..8, \<open>isValid\<close> and \<open>isSafe\<close>
  answer false exactly when some cell of the row, of the column or of the box holds the
  value, the cell (r, c) itself included: the scans do not skip it. When (r, c) does not
  hold the value (an empty cell, as at every call site) this is the same as a conflict in
  another cell. Both are functions of the grid to a truth value: nothing is written.
\<close>

theorem constraint_check_scans_all_cells:
  assumes "r < 9" "c < 9"
  shows "isValid b r c v = (\<not> conflictAnywhere b r c v)
       \<and> isSafe b r c v = (\<not> conflictAnywhere b r c v)
       \<and> (cell b r c \<noteq> v \<longrightarrow>
            isValid b r c v = (\<not> conflictElsewhere b r c v)
          \<and> isSafe b r c v = (\<not> conflictElsewhere b r c v))"
  using isValid_iff[OF assms, of b v] isSafe_isValid[of b r c v] conflict_other_cell[of b r c v]
  by simp

theorem constraint_check_scans_all_cells_witness:
  "cell oneFive 0 1 \<noteq> 5 \<and> conflictElsewhere oneFive 0 1 5 \<and> \<not> isValid oneFive 0 1 5
   \<and> \<not> isSafe oneFive 0 1 5"
proof -
  have a: "cell oneFive 0 1 \<noteq> 5" by code_simp
  have b: "conflictElsewhere oneFive 0 1 5" by code_simp
  have c: "(0::nat) < 9" "(1::nat) < 9" by simp_all
  from constraint_check_scans_all_cells[OF c, of oneFive 5] a b
  have "\<not> isValid oneFive 0 1 5" "\<not> isSafe oneFive 0 1 5" by blast+
  with a b show ?thesis by blast
qed

text \<open>
  C5 as stated fails where the cell itself holds the value: with a 5 at (0, 0) and nothing
  else on the board, no other cell holds 5, and the check still answers false.
\<close>

theorem constraint_check_own_cell_counterexample:
  "\<not> (isValid oneFive 0 0 5 = (\<not> conflictElsewhere oneFive 0 0 5))"
  by code_simp


lemma bit_ALL_NUMS: "bit ALL_NUMS v \<longleftrightarrow> 1 \<le> v \<and> v \<le> 9"
proof -
  have e: "ALL_NUMS = mask 10 AND NOT (1::32 word)" by (simp add: ALL_NUMS_def mask_eq_exp_minus_1)
  show ?thesis unfolding e by (auto simp: bit_and_iff bit_mask_iff)
qed

lemma bit_ucast_16_32: "bit (ucast (w :: 16 word) :: 32 word) v \<longleftrightarrow> bit w v"
  by (auto simp: bit_ucast_iff dest: bit_imp_le_length)

lemma bit_getValidNumbers:
  "bit (getValidNumbers s r c) v \<longleftrightarrow>
     1 \<le> v \<and> v \<le> 9 \<and> \<not> bit (rows s ! r) v \<and> \<not> bit (cols s ! c) v \<and> \<not> bit (boxes s ! boxOf r c) v"
  by (auto simp: getValidNumbers_def Let_def bit_and_iff bit_not_iff bit_or_iff bit_ALL_NUMS
      bit_ucast_16_32)

lemma bit_pow32: "m < 32 \<Longrightarrow> bit (2 ^ m :: 32 word) v \<longleftrightarrow> v = m"
  by (auto simp: bit_exp_iff)

lemma orStore_nth:
  assumes "i < length a" "m < 16"
  shows "bit (orStore a i (2 ^ m) ! j) v \<longleftrightarrow> (if j = i then bit (a ! i) v \<or> v = m else bit (a ! j) v)"
  using assms
  by (auto simp: orStore_def nth_list_update bit_ucast_iff bit_or_iff bit_exp_iff
      dest: bit_imp_le_length)

lemma length_orStore [simp]: "length (orStore a i b) = length a"
  by (simp add: orStore_def)

lemma length_andNotStore [simp]: "length (andNotStore a i b) = length a"
  by (simp add: andNotStore_def)

lemma store_undo:
  assumes "i < length a" "m < 16" "\<not> bit (a ! i) m"
  shows "andNotStore (orStore a i (2 ^ m)) i (2 ^ m) = a"
proof -
  have "(ucast ((ucast (ucast ((ucast (a ! i) :: 32 word) OR 2 ^ m) :: 16 word) :: 32 word) AND NOT (2 ^ m)) :: 16 word)
        = a ! i"
    using assms(2,3)
    by (intro bit_eqI) (auto simp: bit_ucast_iff bit_or_iff bit_and_iff bit_not_iff bit_exp_iff
        dest: bit_imp_le_length)
  then show ?thesis
    using assms(1) by (simp add: andNotStore_def orStore_def list_update_same_conv)
qed

lemma unat_pow32: "m < 32 \<Longrightarrow> unat (2 ^ m :: 32 word) = 2 ^ m"
proof -
  assume m: "m < 32"
  have a: "unat (of_nat (2 ^ m) :: 32 word) = 2 ^ m mod 2 ^ LENGTH(32)" by (rule unat_of_nat)
  have b: "(of_nat (2 ^ m) :: 32 word) = 2 ^ m" by simp
  from a have "unat (2 ^ m :: 32 word) = 2 ^ m mod 2 ^ 32" unfolding b by simp
  moreover have "(2::nat) ^ m < 2 ^ 32" using m by (simp only: power_strict_increasing_iff)
  ultimately show ?thesis by simp
qed

lemma log2_pow: "m < 32 \<Longrightarrow> log2 (2 ^ m) = int m"
  by (simp add: log2_def ilog2_pow unat_pow32 del: ilog2.simps)


lemma boxOf_eq:
  assumes "i < 9" "j < 9" "r < 9" "c < 9"
  shows "boxOf i j = boxOf r c \<longleftrightarrow> i div 3 = r div 3 \<and> j div 3 = c div 3"
proof -
  have lt: "j div 3 < 3" "c div 3 < 3" using assms by (simp_all add: div_less_iff_less_mult)
  show ?thesis
  proof
    assume eq: "boxOf i j = boxOf r c"
    have "(i div 3 * 3 + j div 3) div 3 = i div 3" "(r div 3 * 3 + c div 3) div 3 = r div 3"
      using lt by simp_all
    with eq have a: "i div 3 = r div 3" unfolding boxOf_def by simp
    with eq have "j div 3 = c div 3" unfolding boxOf_def by simp
    with a show "i div 3 = r div 3 \<and> j div 3 = c div 3" by simp
  next
    assume "i div 3 = r div 3 \<and> j div 3 = c div 3"
    then show "boxOf i j = boxOf r c" unfolding boxOf_def by simp
  qed
qed

lemma boxOf_lt: "r < 9 \<Longrightarrow> c < 9 \<Longrightarrow> boxOf r c < 9"
proof -
  assume "r < 9" "c < 9"
  then have "r div 3 < 3" "c div 3 < 3" by (simp_all add: div_less_iff_less_mult)
  then show ?thesis unfolding boxOf_def by linarith
qed

lemma masksOk_rows:
  "masksOk s \<Longrightarrow> r < 9 \<Longrightarrow> bit (rows s ! r) v \<longleftrightarrow> v \<noteq> 0 \<and> (\<exists>c<9. cell (board s) r c = int v)"
  by (simp add: masksOk_def)

lemma masksOk_cols:
  "masksOk s \<Longrightarrow> c < 9 \<Longrightarrow> bit (cols s ! c) v \<longleftrightarrow> v \<noteq> 0 \<and> (\<exists>r<9. cell (board s) r c = int v)"
  by (simp add: masksOk_def)

lemma masksOk_boxes:
  "masksOk s \<Longrightarrow> k < 9 \<Longrightarrow> bit (boxes s ! k) v \<longleftrightarrow>
     v \<noteq> 0 \<and> (\<exists>r<9. \<exists>c<9. boxOf r c = k \<and> cell (board s) r c = int v)"
  by (simp add: masksOk_def)

lemma box_bounded:
  assumes rc: "r < 9" "c < 9"
  shows "(\<exists>i<9. \<exists>j<9. boxOf i j = boxOf r c \<and> P i j)
     \<longleftrightarrow> (\<exists>i j. i div 3 = r div 3 \<and> j div 3 = c div 3 \<and> P i j)"
proof
  assume "\<exists>i<9. \<exists>j<9. boxOf i j = boxOf r c \<and> P i j"
  then obtain i j where "i < 9" "j < 9" "boxOf i j = boxOf r c" "P i j" by blast
  with boxOf_eq[OF _ _ rc, of i j] show "\<exists>i j. i div 3 = r div 3 \<and> j div 3 = c div 3 \<and> P i j"
    by blast
next
  assume "\<exists>i j. i div 3 = r div 3 \<and> j div 3 = c div 3 \<and> P i j"
  then obtain i j where ij: "i div 3 = r div 3" "j div 3 = c div 3" "P i j" by blast
  have lt: "i < 9" "j < 9" using ij(1,2) rc by (auto intro: div3_lt9)
  with boxOf_eq[OF lt rc] ij show "\<exists>i<9. \<exists>j<9. boxOf i j = boxOf r c \<and> P i j" by blast
qed

lemma masks_candidate:
  assumes m: "masksOk s" and rc: "r < 9" "c < 9"
  shows "bit (getValidNumbers s r c) v \<longleftrightarrow> 1 \<le> v \<and> v \<le> 9 \<and> isValid (board s) r c (int v)"
proof (cases "1 \<le> v \<and> v \<le> 9")
  case False
  then show ?thesis by (auto simp: bit_getValidNumbers)
next
  case True
  then have v0: "v \<noteq> 0" by simp
  have R: "bit (rows s ! r) v \<longleftrightarrow> (\<exists>j<9. cell (board s) r j = int v)"
    using masksOk_rows[OF m rc(1)] v0 by simp
  have C: "bit (cols s ! c) v \<longleftrightarrow> (\<exists>i<9. cell (board s) i c = int v)"
    using masksOk_cols[OF m rc(2)] v0 by simp
  have B: "bit (boxes s ! boxOf r c) v \<longleftrightarrow>
      (\<exists>i j. i div 3 = r div 3 \<and> j div 3 = c div 3 \<and> cell (board s) i j = int v)"
    using masksOk_boxes[OF m boxOf_lt[OF rc]] v0
      box_bounded[OF rc, of "\<lambda>i j. cell (board s) i j = int v"] by simp
  have "conflictAnywhere (board s) r c (int v) \<longleftrightarrow>
      bit (rows s ! r) v \<or> bit (cols s ! c) v \<or> bit (boxes s ! boxOf r c) v"
    unfolding conflictAnywhere_iff R C B unit_scan[OF rc] ..
  then show ?thesis
    using True by (simp add: bit_getValidNumbers isValid_iff[OF rc])
qed

lemma placeBit_fields:
  assumes "m < 32"
  shows "board (placeBit r c (2 ^ m) s) = setCell (board s) r c (int m)"
    "rows (placeBit r c (2 ^ m) s) = orStore (rows s) r (2 ^ m)"
    "cols (placeBit r c (2 ^ m) s) = orStore (cols s) c (2 ^ m)"
    "boxes (placeBit r c (2 ^ m) s) = orStore (boxes s) (boxOf r c) (2 ^ m)"
    "solutionSteps (placeBit r c (2 ^ m) s) = solutionSteps s @
       [\<lparr>stepRow = r, stepCol = c, testedValues = currentTestedValues s @ [int m], finalValue = int m\<rparr>]"
  using assms by (simp_all add: placeBit_def Let_def log2_pow)

lemma unplaceBit_fields:
  "board (unplaceBit r c n s) = setCell (board s) r c 0"
  "rows (unplaceBit r c n s) = andNotStore (rows s) r n"
  "cols (unplaceBit r c n s) = andNotStore (cols s) c n"
  "boxes (unplaceBit r c n s) = andNotStore (boxes s) (boxOf r c) n"
  "solutionSteps (unplaceBit r c n s) = butlast (solutionSteps s)"
  by (simp_all add: unplaceBit_def Let_def)

lemma masksOk_place:
  assumes m: "masksOk s" and b: "is9x9 (board s)" and rc: "r < 9" "c < 9"
    and e: "cell (board s) r c = 0" and v: "1 \<le> v" "v \<le> 9"
  shows "masksOk (placeBit r c (2 ^ v) s)"
proof -
  have v32: "v < 32" and v16: "v < 16" using v by simp_all
  note pf = placeBit_fields[OF v32, of r c s]
  note cs = cell_setCell[OF b rc]
  from m have len: "length (rows s) = 9" "length (cols s) = 9" "length (boxes s) = 9"
    by (simp_all add: masksOk_def)
  note R = masksOk_rows[OF m] and C = masksOk_cols[OF m] and B = masksOk_boxes[OF m]
  have R': "bit (orStore (rows s) r (2 ^ v) ! i) w \<longleftrightarrow>
      w \<noteq> 0 \<and> (\<exists>j<9. cell (setCell (board s) r c (int v)) i j = int w)" if i: "i < 9" for i w
  proof (cases "i = r")
    case True
    have "(\<exists>j<9. (if j = c then int v else cell (board s) r j) = int w)
        \<longleftrightarrow> w = v \<or> (\<exists>j<9. cell (board s) r j = int w \<and> j \<noteq> c)"
      using rc(2) by auto
    moreover have "w \<noteq> 0 \<Longrightarrow> (\<exists>j<9. cell (board s) r j = int w \<and> j \<noteq> c) \<longleftrightarrow> (\<exists>j<9. cell (board s) r j = int w)"
      using e by auto
    ultimately show ?thesis
      using True v(1) by (auto simp: orStore_nth[OF _ v16] len rc R[OF rc(1)] cs)
  next
    case False
    then show ?thesis using i by (simp add: orStore_nth[OF _ v16] len rc R cs)
  qed
  have C': "bit (orStore (cols s) c (2 ^ v) ! j) w \<longleftrightarrow>
      w \<noteq> 0 \<and> (\<exists>i<9. cell (setCell (board s) r c (int v)) i j = int w)" if j: "j < 9" for j w
  proof (cases "j = c")
    case True
    have "(\<exists>i<9. (if i = r then int v else cell (board s) i c) = int w)
        \<longleftrightarrow> w = v \<or> (\<exists>i<9. cell (board s) i c = int w \<and> i \<noteq> r)"
      using rc(1) by auto
    moreover have "w \<noteq> 0 \<Longrightarrow> (\<exists>i<9. cell (board s) i c = int w \<and> i \<noteq> r) \<longleftrightarrow> (\<exists>i<9. cell (board s) i c = int w)"
      using e by auto
    ultimately show ?thesis
      using True v(1) by (auto simp: orStore_nth[OF _ v16] len rc C[OF rc(2)] cs)
  next
    case False
    then show ?thesis using j by (simp add: orStore_nth[OF _ v16] len rc C cs)
  qed
  have B': "bit (orStore (boxes s) (boxOf r c) (2 ^ v) ! k) w \<longleftrightarrow>
      w \<noteq> 0 \<and> (\<exists>i<9. \<exists>j<9. boxOf i j = k \<and> cell (setCell (board s) r c (int v)) i j = int w)"
    if k: "k < 9" for k w
  proof (cases "k = boxOf r c")
    case True
    have "(\<exists>i<9. \<exists>j<9. boxOf i j = boxOf r c \<and> (if i = r \<and> j = c then int v else cell (board s) i j) = int w)
        \<longleftrightarrow> w = v \<or> (\<exists>i<9. \<exists>j<9. boxOf i j = boxOf r c \<and> cell (board s) i j = int w \<and> (i, j) \<noteq> (r, c))"
      using rc by auto
    moreover have "w \<noteq> 0 \<Longrightarrow>
        (\<exists>i<9. \<exists>j<9. boxOf i j = boxOf r c \<and> cell (board s) i j = int w \<and> (i, j) \<noteq> (r, c))
        \<longleftrightarrow> (\<exists>i<9. \<exists>j<9. boxOf i j = boxOf r c \<and> cell (board s) i j = int w)"
      using e by (metis of_nat_0_eq_iff prod.inject)
    ultimately show ?thesis
      using True v(1) by (auto simp: orStore_nth[OF _ v16] len boxOf_lt[OF rc] B[OF boxOf_lt[OF rc]] cs)
  next
    case False
    have "(\<exists>i<9. \<exists>j<9. boxOf i j = k \<and> (if i = r \<and> j = c then int v else cell (board s) i j) = int w)
        \<longleftrightarrow> (\<exists>i<9. \<exists>j<9. boxOf i j = k \<and> cell (board s) i j = int w)"
      using False by auto
    then show ?thesis using False k by (simp add: orStore_nth[OF _ v16] len boxOf_lt[OF rc] B cs)
  qed
  show ?thesis
    unfolding masksOk_def pf using len R' C' B' by simp
qed



lemma unplace_restores:
  assumes m: "masksOk s" and b: "is9x9 (board s)" and rc: "r < 9" "c < 9"
    and e: "cell (board s) r c = 0" and v: "1 \<le> v" "v \<le> 9"
    and valid: "isValid (board s) r c (int v)"
    and s4: "board s4 = board (placeBit r c (2 ^ v) s)" "rows s4 = rows (placeBit r c (2 ^ v) s)"
      "cols s4 = cols (placeBit r c (2 ^ v) s)" "boxes s4 = boxes (placeBit r c (2 ^ v) s)"
      "solutionSteps s4 = solutionSteps (placeBit r c (2 ^ v) s)"
  shows "board (unplaceBit r c (2 ^ v) s4) = board s"
    "rows (unplaceBit r c (2 ^ v) s4) = rows s"
    "cols (unplaceBit r c (2 ^ v) s4) = cols s"
    "boxes (unplaceBit r c (2 ^ v) s4) = boxes s"
    "solutionSteps (unplaceBit r c (2 ^ v) s4) = solutionSteps s"
proof -
  have v32: "v < 32" and v16: "v < 16" using v by simp_all
  note pf = placeBit_fields[OF v32, of r c s]
  from m have len: "length (rows s) = 9" "length (cols s) = 9" "length (boxes s) = 9"
    by (simp_all add: masksOk_def)
  have "bit (getValidNumbers s r c) v" using masks_candidate[OF m rc, of v] v valid by simp
  then have nb: "\<not> bit (rows s ! r) v" "\<not> bit (cols s ! c) v" "\<not> bit (boxes s ! boxOf r c) v"
    by (simp_all add: bit_getValidNumbers)
  show "board (unplaceBit r c (2 ^ v) s4) = board s"
    by (simp add: unplaceBit_fields s4 pf setCell_undo[OF b rc e])
  show "rows (unplaceBit r c (2 ^ v) s4) = rows s"
    by (simp add: unplaceBit_fields s4 pf store_undo[OF _ v16 nb(1)] len rc)
  show "cols (unplaceBit r c (2 ^ v) s4) = cols s"
    by (simp add: unplaceBit_fields s4 pf store_undo[OF _ v16 nb(2)] len rc)
  show "boxes (unplaceBit r c (2 ^ v) s4) = boxes s"
    by (simp add: unplaceBit_fields s4 pf store_undo[OF _ v16 nb(3)] len boxOf_lt[OF rc])
  show "solutionSteps (unplaceBit r c (2 ^ v) s4) = solutionSteps s"
    by (simp add: unplaceBit_fields s4 pf)
qed

lemma masksOk_cong:
  "board t = board s \<Longrightarrow> rows t = rows s \<Longrightarrow> cols t = cols s \<Longrightarrow> boxes t = boxes s \<Longrightarrow>
   masksOk t = masksOk s"
  by (simp add: masksOk_def)

lemma bitPost_cong:
  "board t = board s \<Longrightarrow> rows t = rows s \<Longrightarrow> cols t = cols s \<Longrightarrow> boxes t = boxes s \<Longrightarrow>
   solutionSteps t = solutionSteps s \<Longrightarrow> bitPost t ok s' = bitPost s ok s'"
  by (simp add: bitPost_def)

lemma clear_lowest:
  fixes nums :: "32 word"
  assumes "m < 32" "lowestBit nums = 2 ^ m"
  shows "bit (nums AND NOT (lowestBit nums)) v \<longleftrightarrow> bit nums v \<and> v \<noteq> m"
  using assms by (auto simp: bit_and_iff bit_not_iff bit_exp_iff dest: bit_imp_le_length)

lemma searchBacktrack_while_post:
  assumes IH: "\<And>t. masksOk t \<Longrightarrow> is9x9 (board t) \<Longrightarrow> length (emptyCells (board t)) < k \<Longrightarrow>
      \<exists>ok t'. searchBacktrack k t = Some (ok, t') \<and> bitPost t ok t'
        \<and> ((\<exists>sol. legalCompletion (board t) sol) \<longrightarrow> ok)"
    and m: "masksOk s" and b: "is9x9 (board s)" and fe: "firstEmpty (board s) = Some (r, c)"
    and len: "length (emptyCells (board s)) \<le> k"
    and nums: "\<forall>v. bit nums v \<longrightarrow> 1 \<le> v \<and> v \<le> 9 \<and> isValid (board s) r c (int v)"
  shows "\<exists>ok s'. searchBacktrack_while k r c nums s = Some (ok, s') \<and> bitPost s ok s'
      \<and> ((\<exists>sol. legalCompletion (board s) sol \<and> (\<exists>v. bit nums v \<and> cell sol r c = int v)) \<longrightarrow> ok)"
  using m b fe len nums
proof (induction "unat nums" arbitrary: nums s rule: less_induct)
  case less
  note m = less.prems(1) and b = less.prems(2) and fe = less.prems(3) and len = less.prems(4)
    and nums = less.prems(5)
  note rc = firstEmpty_Some(1-3)[OF fe]
  show ?case
  proof (cases "nums = 0")
    case True
    have "searchBacktrack_while k r c nums s = Some (False, s)" using True by simp
    moreover have "bitPost s False s" by (simp add: bitPost_def searchPost_def)
    moreover have "\<not> (\<exists>v. bit nums v)" using True by simp
    ultimately show ?thesis by blast
  next
    case False
    obtain v where v: "v < 32" "lowestBit nums = 2 ^ v" "bit nums v"
      using lowestBit_eq[OF False] by (auto simp: push_bit_eq_mult)
    from nums v(3) have v19: "1 \<le> v" "v \<le> 9" and valid: "isValid (board s) r c (int v)" by auto
    let ?s3 = "placeBit r c (2 ^ v) s"
    let ?nums' = "nums AND NOT (lowestBit nums)"
    note pf = placeBit_fields[OF v(1), of r c s]
    have e: "emptyCells (board s) = (r, c) # emptyCells (setCell (board s) r c (int v))"
      using emptyCells_place[OF b fe, of "int v"] v19(1) by simp
    have "\<exists>ok t'. searchBacktrack k ?s3 = Some (ok, t') \<and> bitPost ?s3 ok t'
        \<and> ((\<exists>sol. legalCompletion (board ?s3) sol) \<longrightarrow> ok)"
      by (rule IH) (use masksOk_place[OF m b rc v19] b len e in \<open>simp_all add: pf is9x9_setCell\<close>)
    then obtain ok3 s4 where r3: "searchBacktrack k ?s3 = Some (ok3, s4)" "bitPost ?s3 ok3 s4"
      "(\<exists>sol. legalCompletion (setCell (board s) r c (int v)) sol) \<longrightarrow> ok3"
      by (auto simp: pf)
    show ?thesis
    proof (cases ok3)
      case True
      have eq: "searchBacktrack_while k r c nums s = Some (True, s4)"
        using False r3(1) True v(2) by (simp add: Let_def)
      have r3': "searchPost (setCell (board s) r c (int v))
          (solutionSteps s @ [\<lparr>stepRow = r, stepCol = c,
             testedValues = currentTestedValues s @ [int v], finalValue = int v\<rparr>]) True s4"
        using r3(2) True by (simp add: bitPost_def pf)
      have "searchPost (board s) (solutionSteps s) True s4"
        by (rule searchPost_place[OF b fe _ _ _ _ _ _ r3'])
           (use v19 in \<open>simp_all add: consistent_place[OF b _ rc(1,2) valid]\<close>)
      then have "bitPost s True s4" by (simp add: bitPost_def)
      then show ?thesis unfolding eq by blast
    next
      case False
      note nok = this
      from r3(2) False have s4: "board s4 = board ?s3" "rows s4 = rows ?s3" "cols s4 = cols ?s3"
        "boxes s4 = boxes ?s3" "solutionSteps s4 = solutionSteps ?s3"
        by (simp_all add: bitPost_def searchPost_def)
      let ?s5 = "unplaceBit r c (2 ^ v) s4"
      note s5 = unplace_restores[OF m b rc v19 valid s4]
      have eq: "searchBacktrack_while k r c nums s = searchBacktrack_while k r c ?nums' ?s5"
        using \<open>nums \<noteq> 0\<close> r3(1) False v(2) by (simp add: Let_def)
      have lt: "unat ?nums' < unat nums" by (rule lowestBit_clear_less[OF \<open>nums \<noteq> 0\<close>])
      have bits': "\<And>w. bit ?nums' w \<longleftrightarrow> bit nums w \<and> w \<noteq> v"
        by (rule clear_lowest[OF v(1,2)])
      have "\<exists>ok s'. searchBacktrack_while k r c ?nums' ?s5 = Some (ok, s') \<and> bitPost ?s5 ok s'
        \<and> ((\<exists>sol. legalCompletion (board ?s5) sol \<and> (\<exists>w. bit ?nums' w \<and> cell sol r c = int w)) \<longrightarrow> ok)"
        by (rule less.hyps[OF lt])
           (use m b fe len nums in \<open>simp_all add: s5 masksOk_cong[OF s5(1-4)] bits'\<close>)
      then obtain ok s' where r: "searchBacktrack_while k r c ?nums' ?s5 = Some (ok, s')"
        "bitPost s ok s'"
        "(\<exists>sol. legalCompletion (board s) sol \<and> (\<exists>w. bit ?nums' w \<and> cell sol r c = int w)) \<longrightarrow> ok"
        unfolding bitPost_cong[OF s5] s5 by blast
      have "(\<exists>sol. legalCompletion (board s) sol \<and> (\<exists>w. bit nums w \<and> cell sol r c = int w)) \<longrightarrow> ok"
      proof
        assume "\<exists>sol. legalCompletion (board s) sol \<and> (\<exists>w. bit nums w \<and> cell sol r c = int w)"
        then obtain sol w where sol: "legalCompletion (board s) sol" "bit nums w" "cell sol r c = int w"
          by blast
        have "w \<noteq> v"
        proof
          assume "w = v"
          with completion_place(2)[OF b rc sol(1)] sol(3) r3(3) nok show False by auto
        qed
        with sol r(3) bits' show ok by blast
      qed
      with r(1,2) show ?thesis unfolding eq by blast
    qed
  qed
qed

lemma searchBacktrack_post:
  "masksOk s \<Longrightarrow> is9x9 (board s) \<Longrightarrow> length (emptyCells (board s)) < k \<Longrightarrow>
     \<exists>ok s'. searchBacktrack k s = Some (ok, s') \<and> bitPost s ok s'
        \<and> ((\<exists>sol. legalCompletion (board s) sol) \<longrightarrow> ok)"
proof (induction k arbitrary: s)
  case 0
  then show ?case by simp
next
  case (Suc k)
  note m = Suc.prems(1) and b = Suc.prems(2)
  show ?case
  proof (cases "firstEmpty (board s)")
    case None
    have "searchBacktrack (Suc k) s = Some (True, s)" using None by simp
    moreover have "bitPost s True s" using searchPost_full[OF None b] by (simp add: bitPost_def)
    ultimately show ?thesis by blast
  next
    case (Some p)
    obtain r c where p: "p = (r, c)" by (cases p)
    note fe = Some[unfolded p]
    note rc = firstEmpty_Some(1-3)[OF fe]
    let ?s0 = "s\<lparr>currentTestedValues := []\<rparr>"
    let ?nums = "getValidNumbers s r c"
    have m0: "masksOk ?s0" using m by (simp add: masksOk_def)
    have "\<exists>ok s'. searchBacktrack_while k r c ?nums ?s0 = Some (ok, s') \<and> bitPost ?s0 ok s'
      \<and> ((\<exists>sol. legalCompletion (board ?s0) sol \<and> (\<exists>v. bit ?nums v \<and> cell sol r c = int v)) \<longrightarrow> ok)"
      by (rule searchBacktrack_while_post[OF Suc.IH m0])
         (use Suc.prems fe masks_candidate[OF m rc(1,2)] in auto)
    then obtain ok s' where r: "searchBacktrack_while k r c ?nums ?s0 = Some (ok, s')"
      "bitPost s ok s'"
      "(\<exists>sol. legalCompletion (board s) sol \<and> (\<exists>v. bit ?nums v \<and> cell sol r c = int v)) \<longrightarrow> ok"
      by (auto simp: bitPost_def)
    have "(\<exists>sol. legalCompletion (board s) sol) \<longrightarrow> ok"
    proof
      assume "\<exists>sol. legalCompletion (board s) sol"
      then obtain sol where sol: "legalCompletion (board s) sol" by blast
      then have "filledIn sol" by (simp add: legalCompletion_def)
      then have v: "1 \<le> cell sol r c" "cell sol r c \<le> 9" using rc(1,2) by (simp_all add: filledIn_iff)
      define w where "w = nat (cell sol r c)"
      have w: "cell sol r c = int w" "1 \<le> w" "w \<le> 9" using v by (simp_all add: w_def)
      have "isValid (board s) r c (int w)" using completion_place(1)[OF b rc sol] w(1) by simp
      then have "bit ?nums w" using masks_candidate[OF m rc(1,2), of w] w by simp
      with sol w(1) r(3) show ok by blast
    qed
    moreover have "searchBacktrack (Suc k) s = searchBacktrack_while k r c ?nums ?s0"
      using fe by (simp add: Let_def)
    ultimately show ?thesis using r(1,2) by metis
  qed
qed

lemma wf_board_cell: "wf_board b \<Longrightarrow> r < 9 \<Longrightarrow> c < 9 \<Longrightarrow> 0 \<le> cell b r c \<and> cell b r c \<le> 9"
  by (simp add: wf_board_def is9x9_def list_all_length cell_def)

lemma wf_board_is9x9: "wf_board b \<Longrightarrow> is9x9 b"
  by (simp add: wf_board_def)

lemma shl1_value: "1 \<le> v \<Longrightarrow> v \<le> 9 \<Longrightarrow> shl1 v = 2 ^ nat v"
  by (simp add: shl1_def push_bit_eq_mult)

definition markedUpTo :: "(nat \<times> nat) set \<Rightarrow> Board \<Rightarrow> Solver \<Rightarrow> bool" where
  "markedUpTo P b t =
     (board t = b \<and> length (rows t) = 9 \<and> length (cols t) = 9 \<and> length (boxes t) = 9
    \<and> (\<forall>r<9. \<forall>v. bit (rows t ! r) v \<longleftrightarrow> v \<noteq> 0 \<and> (\<exists>c<9. (r, c) \<in> P \<and> cell b r c = int v))
    \<and> (\<forall>c<9. \<forall>v. bit (cols t ! c) v \<longleftrightarrow> v \<noteq> 0 \<and> (\<exists>r<9. (r, c) \<in> P \<and> cell b r c = int v))
    \<and> (\<forall>k<9. \<forall>v. bit (boxes t ! k) v \<longleftrightarrow>
           v \<noteq> 0 \<and> (\<exists>r<9. \<exists>c<9. (r, c) \<in> P \<and> boxOf r c = k \<and> cell b r c = int v)))"

definition markCell :: "Solver \<Rightarrow> nat \<times> nat \<Rightarrow> Solver" where
  "markCell = (\<lambda>t (row, col).
              let num = cell (board t) row col
              in if num \<noteq> 0 then
                   (let b = shl1 num; box = boxOf row col
                    in t\<lparr>rows := orStore (rows t) row b,
                         cols := orStore (cols t) col b,
                         boxes := orStore (boxes t) box b\<rparr>)
                 else t)"

lemma initializeBitArrays_alt:
  "initializeBitArrays s = foldl markCell
       (s\<lparr>rows := map (\<lambda>_. 0) (rows s), cols := map (\<lambda>_. 0) (cols s),
          boxes := map (\<lambda>_. 0) (boxes s)\<rparr>) positions"
  by (simp add: initializeBitArrays_def markCell_def)

lemma markedUpTo_step:
  assumes wf: "wf_board b" and inv: "markedUpTo P b t" and rc: "r < 9" "c < 9"
  shows "markedUpTo (insert (r, c) P) b (markCell t (r, c))"
proof (cases "cell b r c = 0")
  case True
  have bt: "board t = b" using inv by (simp add: markedUpTo_def)
  have "markCell t (r, c) = t" using True bt by (simp add: markCell_def)
  moreover have "\<And>i j v. v \<noteq> 0 \<Longrightarrow> ((i, j) \<in> insert (r, c) P \<and> cell b i j = int v)
       \<longleftrightarrow> ((i, j) \<in> P \<and> cell b i j = int v)"
    using True by auto
  moreover have "\<And>i j v k. v \<noteq> 0 \<Longrightarrow> ((i, j) \<in> insert (r, c) P \<and> boxOf i j = k \<and> cell b i j = int v)
       \<longleftrightarrow> ((i, j) \<in> P \<and> boxOf i j = k \<and> cell b i j = int v)"
    using True by auto
  ultimately show ?thesis using inv unfolding markedUpTo_def by (simp cong: conj_cong)
next
  case False
  have bt: "board t = b" using inv by (simp add: markedUpTo_def)
  from wf_board_cell[OF wf rc] False have v: "1 \<le> cell b r c" "cell b r c \<le> 9" by simp_all
  define m where "m = nat (cell b r c)"
  have m: "cell b r c = int m" "1 \<le> m" "m \<le> 9" "m < 16" using v by (simp_all add: m_def)
  have sh: "shl1 (cell b r c) = 2 ^ m" using shl1_value[OF v] by (simp add: m_def)
  from inv have len: "length (rows t) = 9" "length (cols t) = 9" "length (boxes t) = 9"
    by (simp_all add: markedUpTo_def)
  have mk: "markCell t (r, c) = t\<lparr>rows := orStore (rows t) r (2 ^ m),
      cols := orStore (cols t) c (2 ^ m), boxes := orStore (boxes t) (boxOf r c) (2 ^ m)\<rparr>"
    using False bt sh by (simp add: markCell_def Let_def)
  have R: "bit (rows t ! i) w \<longleftrightarrow> w \<noteq> 0 \<and> (\<exists>j<9. (i, j) \<in> P \<and> cell b i j = int w)" if "i < 9" for i w
    using inv that by (simp add: markedUpTo_def)
  have C: "bit (cols t ! j) w \<longleftrightarrow> w \<noteq> 0 \<and> (\<exists>i<9. (i, j) \<in> P \<and> cell b i j = int w)" if "j < 9" for j w
    using inv that by (simp add: markedUpTo_def)
  have B: "bit (boxes t ! k) w \<longleftrightarrow>
      w \<noteq> 0 \<and> (\<exists>i<9. \<exists>j<9. (i, j) \<in> P \<and> boxOf i j = k \<and> cell b i j = int w)" if "k < 9" for k w
    using inv that by (simp add: markedUpTo_def)
  have R': "bit (orStore (rows t) r (2 ^ m) ! i) w \<longleftrightarrow>
      w \<noteq> 0 \<and> (\<exists>j<9. (i, j) \<in> insert (r, c) P \<and> cell b i j = int w)" if i: "i < 9" for i w
    using i rc m by (auto simp: orStore_nth[OF _ m(4)] len R)
  have C': "bit (orStore (cols t) c (2 ^ m) ! j) w \<longleftrightarrow>
      w \<noteq> 0 \<and> (\<exists>i<9. (i, j) \<in> insert (r, c) P \<and> cell b i j = int w)" if j: "j < 9" for j w
    using j rc m by (auto simp: orStore_nth[OF _ m(4)] len C)
  have B': "bit (orStore (boxes t) (boxOf r c) (2 ^ m) ! k) w \<longleftrightarrow>
      w \<noteq> 0 \<and> (\<exists>i<9. \<exists>j<9. (i, j) \<in> insert (r, c) P \<and> boxOf i j = k \<and> cell b i j = int w)"
    if k: "k < 9" for k w
    using k rc m boxOf_lt[OF rc] by (auto simp: orStore_nth[OF _ m(4)] len B)
  show ?thesis
    unfolding markedUpTo_def mk using bt len R' C' B' by simp
qed

lemma markedUpTo_foldl:
  assumes wf: "wf_board b" and inv: "markedUpTo {} b t" and xs: "set xs \<subseteq> set positions"
  shows "markedUpTo (set xs) b (foldl markCell t xs)"
  using xs
proof (induction xs rule: rev_induct)
  case Nil
  then show ?case using inv by simp
next
  case (snoc x xs)
  obtain r c where x: "x = (r, c)" by (cases x)
  have rc: "r < 9" "c < 9" using snoc.prems x by (auto simp: in_positions)
  have "markedUpTo (set xs) b (foldl markCell t xs)" using snoc by simp
  from markedUpTo_step[OF wf this rc] show ?case by (simp add: x)
qed

lemma masksOk_initializeBitArrays:
  assumes wf: "wf_board (board s)" and ta: "typedArrays s"
  shows "masksOk (initializeBitArrays s)" "board (initializeBitArrays s) = board s"
    "solutionSteps (initializeBitArrays s) = solutionSteps s"
proof -
  let ?s0 = "s\<lparr>rows := map (\<lambda>_. 0) (rows s), cols := map (\<lambda>_. 0) (cols s),
          boxes := map (\<lambda>_. 0) (boxes s)\<rparr>"
  have "markedUpTo {} (board s) ?s0"
    using ta by (simp add: markedUpTo_def typedArrays_def)
  from markedUpTo_foldl[OF wf this subset_refl]
  have mu: "markedUpTo (set positions) (board s) (initializeBitArrays s)"
    by (simp add: initializeBitArrays_alt)
  then show "board (initializeBitArrays s) = board s" by (simp add: markedUpTo_def)
  from mu show "masksOk (initializeBitArrays s)"
    unfolding markedUpTo_def masksOk_def by (simp add: in_positions cong: conj_cong)
  have "solutionSteps (foldl markCell t xs) = solutionSteps t" for t xs
    by (induction xs arbitrary: t) (auto simp: markCell_def Let_def)
  then show "solutionSteps (initializeBitArrays s) = solutionSteps s"
    by (simp add: initializeBitArrays_alt)
qed

lemma entered_masksOk_aux:
  "(entered k s t \<longrightarrow>
      masksOk s \<longrightarrow> is9x9 (board s) \<longrightarrow> length (emptyCells (board s)) < k \<longrightarrow>
      masksOk t \<and> is9x9 (board t))
   \<and> (enteredFrom k r c nums s t \<longrightarrow>
      masksOk s \<longrightarrow> is9x9 (board s) \<longrightarrow> firstEmpty (board s) = Some (r, c) \<longrightarrow>
      length (emptyCells (board s)) \<le> k \<longrightarrow>
      (\<forall>v. bit nums v \<longrightarrow> 1 \<le> v \<and> v \<le> 9 \<and> isValid (board s) r c (int v)) \<longrightarrow>
      masksOk t \<and> is9x9 (board t))"
proof (induction rule: entered_enteredFrom.induct)
  case (entered_here k s)
  then show ?case by simp
next
  case (entered_loop s row col k t)
  show ?case
  proof (intro impI)
    assume m: "masksOk s" and b: "is9x9 (board s)" and len: "length (emptyCells (board s)) < Suc k"
    note rc = firstEmpty_Some(1-3)[OF entered_loop.hyps(1)]
    have "masksOk (s\<lparr>currentTestedValues := []\<rparr>)" using m by (simp add: masksOk_def)
    with entered_loop.IH b len entered_loop.hyps(1) masks_candidate[OF m rc(1,2)]
    show "masksOk t \<and> is9x9 (board t)" by simp
  qed
next
  case (entered_call nums k row col s t)
  show ?case
  proof (intro impI)
    assume m: "masksOk s" and b: "is9x9 (board s)" and fe: "firstEmpty (board s) = Some (row, col)"
      and len: "length (emptyCells (board s)) \<le> k"
      and nums: "\<forall>v. bit nums v \<longrightarrow> 1 \<le> v \<and> v \<le> 9 \<and> isValid (board s) row col (int v)"
    note rc = firstEmpty_Some(1-3)[OF fe]
    obtain v where v: "v < 32" "lowestBit nums = 2 ^ v" "bit nums v"
      using lowestBit_eq[OF entered_call.hyps(1)] by (auto simp: push_bit_eq_mult)
    from nums v(3) have v19: "1 \<le> v" "v \<le> 9" by auto
    note pf = placeBit_fields[OF v(1), of row col s]
    have e: "emptyCells (board s) = (row, col) # emptyCells (setCell (board s) row col (int v))"
      using emptyCells_place[OF b fe, of "int v"] v19(1) by simp
    have "length (emptyCells (board (placeBit row col (2 ^ v) s))) < k"
      using len e by (simp add: pf)
    with entered_call.IH masksOk_place[OF m b rc v19] b
    show "masksOk t \<and> is9x9 (board t)" by (simp add: v(2) pf is9x9_setCell)
  qed
next
  case (entered_next nums k row col s s4 t)
  show ?case
  proof (intro impI)
    assume m: "masksOk s" and b: "is9x9 (board s)" and fe: "firstEmpty (board s) = Some (row, col)"
      and len: "length (emptyCells (board s)) \<le> k"
      and nums: "\<forall>v. bit nums v \<longrightarrow> 1 \<le> v \<and> v \<le> 9 \<and> isValid (board s) row col (int v)"
    note rc = firstEmpty_Some(1-3)[OF fe]
    obtain v where v: "v < 32" "lowestBit nums = 2 ^ v" "bit nums v"
      using lowestBit_eq[OF entered_next.hyps(1)] by (auto simp: push_bit_eq_mult)
    from nums v(3) have v19: "1 \<le> v" "v \<le> 9" and valid: "isValid (board s) row col (int v)" by auto
    note pf = placeBit_fields[OF v(1), of row col s]
    let ?s3 = "placeBit row col (2 ^ v) s"
    have e: "emptyCells (board s) = (row, col) # emptyCells (setCell (board s) row col (int v))"
      using emptyCells_place[OF b fe, of "int v"] v19(1) by simp
    have "\<exists>ok t'. searchBacktrack k ?s3 = Some (ok, t') \<and> bitPost ?s3 ok t'
        \<and> ((\<exists>sol. legalCompletion (board ?s3) sol) \<longrightarrow> ok)"
      by (rule searchBacktrack_post)
         (use masksOk_place[OF m b rc v19] b len e in \<open>simp_all add: pf is9x9_setCell\<close>)
    with entered_next.hyps(2) have "bitPost ?s3 False s4" by (auto simp: v(2))
    then have s4: "board s4 = board ?s3" "rows s4 = rows ?s3" "cols s4 = cols ?s3"
        "boxes s4 = boxes ?s3" "solutionSteps s4 = solutionSteps ?s3"
      by (simp_all add: bitPost_def searchPost_def)
    note s5 = unplace_restores[OF m b rc v19 valid s4]
    have bits': "\<And>w. bit (nums AND NOT (lowestBit nums)) w \<longleftrightarrow> bit nums w \<and> w \<noteq> v"
      by (rule clear_lowest[OF v(1,2)])
    from entered_next.IH m b fe len nums
    show "masksOk t \<and> is9x9 (board t)"
      by (simp add: v(2)[symmetric] s5[unfolded v(2)[symmetric]]
           masksOk_cong[OF s5(1-4), unfolded v(2)[symmetric]] bits')
  qed
qed

section \<open>Every recorded Step ends with its final value\<close>

definition staticEq :: "Matrix \<Rightarrow> Matrix \<Rightarrow> bool" where
  "staticEq m m' = (nodeRow m' = nodeRow m \<and> nodeCol m' = nodeCol m \<and> nodeNum m' = nodeNum m
     \<and> column m' = column m)"

lemma staticEq_refl [simp]: "staticEq m m"
  by (simp add: staticEq_def)

lemma staticEq_trans: "staticEq a b \<Longrightarrow> staticEq b c \<Longrightarrow> staticEq a c"
  by (simp add: staticEq_def)

lemma staticEq_unlinkNode: "staticEq m (unlinkNode x m)"
  by (simp add: staticEq_def unlinkNode_def Let_def)

lemma staticEq_relinkNode: "staticEq m (relinkNode x m)"
  by (simp add: staticEq_def relinkNode_def Let_def)

lemma staticEq_cover_row: "cover_row rw r m = Some m' \<Longrightarrow> staticEq m m'"
proof (induction rule: cover_row.raw_induct[rotated 1, consumes 1])
  case (1 cover_row rw r m m')
  show ?case
  proof (cases "r = rw")
    case True
    with 1(2) show ?thesis by simp
  next
    case False
    with 1(2) have "cover_row rw (right (unlinkNode r m) r) (unlinkNode r m) = Some m'"
      by (simp add: Let_def)
    from 1(1)[OF this] staticEq_unlinkNode[of m r] show ?thesis by (rule staticEq_trans[rotated])
  qed
qed

lemma staticEq_cover_rows: "cover_rows colm rw m = Some m' \<Longrightarrow> staticEq m m'"
proof (induction rule: cover_rows.raw_induct[rotated 1, consumes 1])
  case (1 cover_rows colm rw m m')
  show ?case
  proof (cases "rw = colm")
    case True
    with 1(2) show ?thesis by simp
  next
    case False
    with 1(2) obtain m1 where m1: "cover_row rw (right m rw) m = Some m1"
      "cover_rows colm (down m1 rw) m1 = Some m'"
      by (auto split: option.splits)
    from staticEq_cover_row[OF m1(1)] 1(1)[OF m1(2)] show ?thesis by (rule staticEq_trans)
  qed
qed

lemma staticEq_cover: "cover colm m = Some m' \<Longrightarrow> staticEq m m'"
  unfolding cover_def Let_def
  by (drule staticEq_cover_rows) (simp add: staticEq_def)

lemma staticEq_uncover_row: "uncover_row rw l m = Some m' \<Longrightarrow> staticEq m m'"
proof (induction rule: uncover_row.raw_induct[rotated 1, consumes 1])
  case (1 uncover_row rw l m m')
  show ?case
  proof (cases "l = rw")
    case True
    with 1(2) show ?thesis by simp
  next
    case False
    with 1(2) have "uncover_row rw (left (relinkNode l m) l) (relinkNode l m) = Some m'"
      by (simp add: Let_def)
    from 1(1)[OF this] staticEq_relinkNode[of m l] show ?thesis by (rule staticEq_trans[rotated])
  qed
qed

lemma staticEq_uncover_rows: "uncover_rows colm rw m = Some m' \<Longrightarrow> staticEq m m'"
proof (induction rule: uncover_rows.raw_induct[rotated 1, consumes 1])
  case (1 uncover_rows colm rw m m')
  show ?case
  proof (cases "rw = colm")
    case True
    with 1(2) show ?thesis by simp
  next
    case False
    with 1(2) obtain m1 where m1: "uncover_row rw (left m rw) m = Some m1"
      "uncover_rows colm (up m1 rw) m1 = Some m'"
      by (auto split: option.splits)
    from staticEq_uncover_row[OF m1(1)] 1(1)[OF m1(2)] show ?thesis by (rule staticEq_trans)
  qed
qed

lemma staticEq_uncover: "uncover colm m = Some m' \<Longrightarrow> staticEq m m'"
  unfolding uncover_def Let_def
  by (auto split: option.splits dest!: staticEq_uncover_rows simp: staticEq_def)

lemma staticEq_coverOthers: "coverOthers rw r m = Some m' \<Longrightarrow> staticEq m m'"
proof (induction rule: coverOthers.raw_induct[rotated 1, consumes 1])
  case (1 coverOthers rw r m m')
  show ?case
  proof (cases "r = rw")
    case True
    with 1(2) show ?thesis by simp
  next
    case False
    with 1(2) obtain m1 where m1: "cover (column m r) m = Some m1"
      "coverOthers rw (right m1 r) m1 = Some m'"
      by (auto split: option.splits)
    from staticEq_cover[OF m1(1)] 1(1)[OF m1(2)] show ?thesis by (rule staticEq_trans)
  qed
qed

lemma staticEq_uncoverOthers: "uncoverOthers rw l m = Some m' \<Longrightarrow> staticEq m m'"
proof (induction rule: uncoverOthers.raw_induct[rotated 1, consumes 1])
  case (1 uncoverOthers rw l m m')
  show ?case
  proof (cases "l = rw")
    case True
    with 1(2) show ?thesis by simp
  next
    case False
    with 1(2) obtain m1 where m1: "uncover (column m l) m = Some m1"
      "uncoverOthers rw (left m1 l) m1 = Some m'"
      by (auto split: option.splits)
    from staticEq_uncover[OF m1(1)] 1(1)[OF m1(2)] show ?thesis by (rule staticEq_trans)
  qed
qed

definition traceOk :: "Solver \<Rightarrow> bool" where
  "traceOk s = list_all stepOk (solutionSteps s)"

lemma traceOk_butlast: "list_all stepOk xs \<Longrightarrow> list_all stepOk (butlast xs)"
  by (auto simp: list_all_iff dest: in_set_butlastD)

lemma solveSimple_traceOk:
  shows "solveSimple k s = Some (ok, s') \<Longrightarrow> traceOk s \<Longrightarrow> traceOk s'"
    and "solveSimple_for k r c nums t = Some (ok, s') \<Longrightarrow> traceOk t \<Longrightarrow> traceOk s'"
proof (induction k s and k r c nums t arbitrary: ok s' and ok s'
    rule: solveSimple_solveSimple_for.induct)
  case (1 s)
  then show ?case by simp
next
  case (2 k s)
  show ?case
  proof (cases "firstEmpty (board s)")
    case None
    with "2.prems" show ?thesis by auto
  next
    case (Some p)
    obtain r c where p: "p = (r, c)" by (cases p)
    from "2.prems" Some p
    have "solveSimple_for k r c [1..9] (s\<lparr>currentTestedValues := []\<rparr>) = Some (ok, s')" by simp
    from "2.IH"[OF Some p[symmetric] this] "2.prems"(2) show ?thesis by (simp add: traceOk_def)
  qed
next
  case (3 k row col s)
  then show ?case by auto
next
  case (4 k row col num nums s)
  note run = "4.prems"(1) and tr = "4.prems"(2)
  let ?s1 = "s\<lparr>currentTestedValues := currentTestedValues s @ [num]\<rparr>"
  show ?case
  proof (cases "isValid (board s) row col num")
    case False
    with run have "solveSimple_for k row col nums ?s1 = Some (ok, s')" by simp
    from "4.IH"(3)[OF refl _ this] False tr show ?thesis by (simp add: traceOk_def)
  next
    case True
    let ?st = "\<lparr>stepRow = row, stepCol = col, testedValues = currentTestedValues s @ [num],
        finalValue = num\<rparr>"
    let ?s3 = "?s1\<lparr>board := setCell (board s) row col num, solutionSteps := solutionSteps s @ [?st]\<rparr>"
    have t3: "traceOk ?s3" using tr by (simp add: traceOk_def stepOk_def)
    from run True obtain ok3 s4 where r3: "solveSimple k ?s3 = Some (ok3, s4)"
      by (auto simp: Let_def split: option.splits)
    have t4: "traceOk s4" using "4.IH"(1)[OF refl _ refl refl, of ok3 s4] True r3 t3 by simp
    show ?thesis
    proof (cases ok3)
      case True
      with run r3 \<open>isValid (board s) row col num\<close> have "s' = s4" by (simp add: Let_def)
      with t4 show ?thesis by simp
    next
      case False
      let ?s5 = "s4\<lparr>board := setCell (board s4) row col 0, solutionSteps := butlast (solutionSteps s4)\<rparr>"
      from run r3 False \<open>isValid (board s) row col num\<close>
      have r5: "solveSimple_for k row col nums ?s5 = Some (ok, s')" by (simp add: Let_def)
      have t5: "traceOk ?s5" using t4 by (simp add: traceOk_def traceOk_butlast)
      show ?thesis
        using "4.IH"(2)[OF refl _ refl refl _ refl False r5 t5] \<open>isValid (board s) row col num\<close> r3
        by simp
    qed
  qed
qed


lemma traceOk_placeBit: "traceOk s \<Longrightarrow> traceOk (placeBit r c n s)"
  by (simp add: traceOk_def placeBit_def Let_def stepOk_def)

lemma traceOk_unplaceBit: "traceOk s \<Longrightarrow> traceOk (unplaceBit r c n s)"
  by (simp add: traceOk_def unplaceBit_def Let_def traceOk_butlast)

lemma searchBacktrack_traceOk:
  shows "searchBacktrack k s = Some (ok, s') \<Longrightarrow> traceOk s \<Longrightarrow> traceOk s'"
    and "searchBacktrack_while k r c nums t = Some (ok, s') \<Longrightarrow> traceOk t \<Longrightarrow> traceOk s'"
proof (induction k s and k r c nums t arbitrary: ok s' and ok s'
    rule: searchBacktrack_searchBacktrack_while.induct)
  case (1 s)
  then show ?case by simp
next
  case (2 k s)
  show ?case
  proof (cases "firstEmpty (board s)")
    case None
    with "2.prems" show ?thesis by auto
  next
    case (Some p)
    obtain r c where p: "p = (r, c)" by (cases p)
    from "2.prems" Some p
    have "searchBacktrack_while k r c (getValidNumbers s r c) (s\<lparr>currentTestedValues := []\<rparr>)
        = Some (ok, s')" by (simp add: Let_def)
    from "2.IH"[OF Some p[symmetric] refl this] "2.prems"(2) show ?thesis by (simp add: traceOk_def)
  qed
next
  case (3 k row col nums s)
  note run = "3.prems"(1) and tr = "3.prems"(2)
  show ?case
  proof (cases "nums = 0")
    case True
    with run tr show ?thesis by simp
  next
    case False
    let ?num = "lowestBit nums"
    let ?s3 = "placeBit row col ?num s"
    from run False obtain ok3 s4 where r3: "searchBacktrack k ?s3 = Some (ok3, s4)"
      by (auto simp: Let_def split: option.splits)
    have t4: "traceOk s4"
      using "3.IH"(1)[OF False refl refl r3] traceOk_placeBit[OF tr] by simp
    show ?thesis
    proof (cases ok3)
      case True
      with run r3 False have "s' = s4" by (simp add: Let_def)
      with t4 show ?thesis by simp
    next
      case nok: False
      let ?s5 = "unplaceBit row col ?num s4"
      from run r3 nok False
      have r5: "searchBacktrack_while k row col (nums AND NOT ?num) ?s5 = Some (ok, s')"
        by (simp add: Let_def)
      show ?thesis
        using "3.IH"(2)[OF False refl refl r3 refl nok r5] traceOk_unplaceBit[OF t4] by simp
    qed
  qed
qed

lemma traceOk_recordStep:
  assumes "traceOk s" "currentTestedValues s = tv @ [nodeNum (nodes s) rw]"
  shows "traceOk (recordStep rw s)"
  using assms by (simp add: traceOk_def recordStep_def Let_def stepOk_def)

lemma traceOk_backtrackStep: "traceOk s \<Longrightarrow> traceOk (backtrackStep rw s)"
  by (simp add: traceOk_def backtrackStep_def Let_def traceOk_butlast)

lemma searchDLX_traceOk:
  shows "searchDLX k s = Some (ok, s') \<Longrightarrow> traceOk s \<Longrightarrow> traceOk s'"
    and "searchDLX_rows k minColumn rw t = Some (ok, s') \<Longrightarrow> traceOk t \<Longrightarrow> traceOk s'"
proof (induction k s and k minColumn rw t arbitrary: ok s' and ok s'
    rule: searchDLX_searchDLX_rows.induct)
  case (1 s)
  then show ?case by simp
next
  case (2 k s)
  note run = "2.prems"(1) and tr = "2.prems"(2)
  show ?case
  proof (cases "right (nodes s) (header s) = header s")
    case True
    with run tr show ?thesis by simp
  next
    case False
    from run False obtain minColumn minSize where ch:
      "chooseColumn (header s) (nodes s) = Some (minColumn, minSize)"
      by (auto split: option.splits)
    show ?thesis
    proof (cases "minSize = 0")
      case True
      with run False ch tr show ?thesis by simp
    next
      case nz: False
      from run False ch nz obtain m1 where m1: "cover minColumn (nodes s) = Some m1"
        by (auto split: option.splits)
      from run False ch nz m1
      have r: "searchDLX_rows k minColumn (down m1 minColumn)
          (s\<lparr>nodes := m1, currentTestedValues := []\<rparr>) = Some (ok, s')" by simp
      from "2.IH"[OF False ch refl nz m1 r] tr show ?thesis by (simp add: traceOk_def)
    qed
  qed
next
  case (3 minColumn rw s)
  then show ?case by simp
next
  case (4 k minColumn rw s)
  note run = "4.prems"(1) and tr = "4.prems"(2)
  show ?case
  proof (cases "rw = minColumn")
    case True
    with run tr show ?thesis by (auto split: option.splits simp: traceOk_def)
  next
    case False
    let ?m = "nodes s"
    let ?r = "nodeRow ?m rw" and ?c = "nodeCol ?m rw" and ?num = "nodeNum ?m rw"
    show ?thesis
    proof (cases "cell (board s) ?r ?c \<noteq> 0 \<and> cell (board s) ?r ?c \<noteq> ?num")
      case True
      with run False have "searchDLX_rows k minColumn (down ?m rw) s = Some (ok, s')"
        by (simp add: Let_def)
      from "4.IH"(1)[OF False refl refl refl refl True this tr] show ?thesis .
    next
      case nskip: False
      let ?s1 = "s\<lparr>currentTestedValues := currentTestedValues s @ [?num]\<rparr>"
      from run False nskip obtain m2 where m2: "coverOthers rw (right ?m rw) ?m = Some m2"
        by (auto simp: Let_def split: option.splits)
      let ?s4 = "recordStep rw (?s1\<lparr>nodes := m2\<rparr>)"
      from run False nskip m2 obtain ok3 s5 where r3: "searchDLX k ?s4 = Some (ok3, s5)"
        by (auto simp: Let_def split: option.splits)
      have "nodeNum m2 rw = ?num" using staticEq_coverOthers[OF m2] by (simp add: staticEq_def)
      then have t4: "traceOk ?s4"
        using tr by (intro traceOk_recordStep[where tv = "currentTestedValues s"])
          (simp_all add: traceOk_def)
      have t5: "traceOk s5"
        using "4.IH"(2)[OF False refl refl refl refl nskip refl m2 r3 t4] .
      show ?thesis
      proof (cases ok3)
        case True
        with run False nskip m2 r3 have "s' = s5" by (simp add: Let_def)
        with t5 show ?thesis by simp
      next
        case nok: False
        let ?s6 = "backtrackStep rw s5"
        from run False nskip m2 r3 nok obtain m7 where
          m7: "uncoverOthers rw (left (nodes ?s6) rw) (nodes ?s6) = Some m7"
          by (auto simp: Let_def split: option.splits)
        from run False nskip m2 r3 nok m7
        have r7: "searchDLX_rows k minColumn (down m7 rw) (?s6\<lparr>nodes := m7\<rparr>) = Some (ok, s')"
          by (simp add: Let_def)
        have t7: "traceOk (?s6\<lparr>nodes := m7\<rparr>)"
          using traceOk_backtrackStep[OF t5, of rw] by (simp add: traceOk_def)
        show ?thesis
          using "4.IH"(3)[OF False refl refl refl refl nskip refl m2 r3 refl nok refl m7 r7 t7] .
      qed
    qed
  qed
qed

definition deadEnd :: Board where
  "deadEnd = [[1, 2, 3, 4, 5, 6, 7, 8, 0],
              [0, 0, 0, 0, 0, 0, 0, 0, 9],
              [0, 0, 0, 0, 0, 0, 0, 0, 0],
              [0, 0, 0, 0, 0, 0, 0, 0, 0],
              [0, 0, 0, 0, 0, 0, 0, 0, 0],
              [0, 0, 0, 0, 0, 0, 0, 0, 0],
              [0, 0, 0, 0, 0, 0, 0, 0, 0],
              [0, 0, 0, 0, 0, 0, 0, 0, 0],
              [0, 0, 0, 0, 0, 0, 0, 0, 0]]"

lemma length_emptyCells: "length (emptyCells b) \<le> 81"
proof -
  have "length (emptyCells b) \<le> length positions" unfolding emptyCells_def by (rule length_filter_le)
  then show ?thesis by (simp add: positions_def)
qed

lemma typedArrays_newSolver: "typedArrays newSolver"
  by (simp add: typedArrays_def newSolver_def Let_def split: prod.splits)

lemma typedArrays_setBoard: "typedArrays (setBoard g s) = typedArrays s"
  by (simp add: typedArrays_def setBoard_def)

lemma board_setBoard: "board (setBoard g s) = g"
  by (simp add: setBoard_def)


text \<open>
  C6. In a run of the bit-backtracking solver on a well-formed grid, with a bound that lets
  the search finish, the masks mirror the board at every entry of \<open>searchBacktrack\<close>: bit
  \<open>v\<close> of a mask is set exactly when the non-zero value \<open>v\<close> stands in that row, column
  or box. So the candidates read there, \<open>ALL_NUMS AND NOT (rows[r] OR cols[c] OR boxes[b])\<close>,
  are exactly the values 1..9 that stand nowhere in the row, the column and the box of
  the cell.
\<close>

theorem masks_mirror_board:
  assumes "wf_board (board s)" and "typedArrays s" and "length (emptyCells (board s)) < k"
    and "entered k (initializeBitArrays s) t"
  shows "masksOk t
    \<and> (\<forall>r<9. \<forall>c<9. \<forall>v. bit (getValidNumbers t r c) v
          \<longleftrightarrow> 1 \<le> v \<and> v \<le> 9 \<and> \<not> conflictAnywhere (board t) r c (int v))"
proof -
  note i = masksOk_initializeBitArrays[OF assms(1,2)]
  have "masksOk t \<and> is9x9 (board t)"
    using entered_masksOk_aux[of k "initializeBitArrays s" t] assms i wf_board_is9x9 by simp
  then show ?thesis
    using masks_candidate[of t] by (simp add: isValid_iff)
qed

theorem masks_mirror_board_witness:
  "wf_board deadEnd \<and> masksOk (initializeBitArrays (setBoard deadEnd newSolver))
   \<and> (bit (getValidNumbers (initializeBitArrays (setBoard deadEnd newSolver)) 0 8) 9
        = (\<not> conflictAnywhere deadEnd 0 8 9))"
proof -
  let ?s = "setBoard deadEnd newSolver"
  have wf: "wf_board (board ?s)" unfolding board_setBoard by code_simp
  have ta: "typedArrays ?s" by (simp add: typedArrays_setBoard typedArrays_newSolver)
  have len: "length (emptyCells (board ?s)) < 82" using length_emptyCells[of "board ?s"] by simp
  have e: "entered 82 (initializeBitArrays ?s) (initializeBitArrays ?s)"
    using entered_here[of 81 "initializeBitArrays ?s"] by simp
  have b: "board (initializeBitArrays ?s) = deadEnd"
    using masksOk_initializeBitArrays(2)[OF wf ta] by (simp add: board_setBoard)
  from masks_mirror_board[OF wf ta len e] b wf show ?thesis
    by (simp add: board_setBoard)
qed

text \<open>
  C10. When the simple or the bit-backtracking search reports failure, every tentative
  write has been undone: \<open>getSolution\<close> is the grid given to \<open>setBoard\<close> and the trace is
  empty. On a well-formed grid both searches return; on a grid without a legal completion
  whose givens do not clash they report failure.
\<close>

theorem failed_search_restores:
  assumes "wf_board g" and "typedArrays s0" and "length (emptyCells g) < k"
    and "alg = SIMPLE \<or> alg = BACKTRACK"
    and "\<not> (\<exists>sol. legalCompletion g sol)"
  shows "\<exists>ok s1 st s'.
       runAlgorithm k alg ((setBoard g s0)\<lparr>solutionSteps := []\<rparr>) = Some (ok, s1)
     \<and> solve k alg (setBoard g s0) = Some (st, s')
     \<and> getSolution s' = getSolution s1 \<and> getSolutionSteps s' = getSolutionSteps s1
     \<and> (ok = False \<longrightarrow> getSolution s' = g \<and> getSolutionSteps s' = [])
     \<and> (consistent g \<longrightarrow> ok = False)"
proof -
  let ?s = "(setBoard g s0)\<lparr>solutionSteps := []\<rparr>"
  have bs: "board ?s = g" "solutionSteps ?s = []" by (simp_all add: setBoard_def)
  have b9: "is9x9 (board ?s)" using assms(1) by (simp add: bs wf_board_is9x9)
  have "\<exists>ok s1. runAlgorithm k alg ?s = Some (ok, s1) \<and> searchPost g [] ok s1"
  proof (cases "alg = SIMPLE")
    case True
    from solveSimple_post[OF b9, of k] assms(3) show ?thesis
      by (auto simp: bs runAlgorithm_def True)
  next
    case False
    then have alg: "alg = BACKTRACK" using assms(4) by simp
    have wf: "wf_board (board ?s)" using assms(1) by (simp add: bs)
    have ta: "typedArrays ?s" using assms(2) by (simp add: typedArrays_def setBoard_def)
    note i = masksOk_initializeBitArrays[OF wf ta]
    from searchBacktrack_post[OF i(1), of k] b9 assms(3) i(2,3) show ?thesis
      by (auto simp: bs runAlgorithm_def alg solveBacktrack_def bitPost_def)
  qed
  then obtain ok s1 where r: "runAlgorithm k alg ?s = Some (ok, s1)" "searchPost g [] ok s1" by blast
  let ?st = "\<lparr>algorithm = algorithmName alg, steps = length (solutionSteps s1)\<rparr>"
  have sv: "solve k alg (setBoard g s0) = Some (?st, s1\<lparr>stats := ?st\<rparr>)"
    using r(1) by (simp add: solve_def Let_def)
  have fail: "ok = False \<longrightarrow> board s1 = g \<and> solutionSteps s1 = []"
    using r(2) by (auto simp: searchPost_def)
  have "consistent g \<longrightarrow> ok = False"
  proof (intro impI)
    assume c: "consistent g"
    show "ok = False"
    proof (rule ccontr)
      assume "ok \<noteq> False"
      then have ok: ok by simp
      with r(2) have p: "is9x9 (board s1)" "keepsGivens g (board s1)"
        "\<forall>i<9. \<forall>j<9. cell g i j = 0 \<longrightarrow> 1 \<le> cell (board s1) i j \<and> cell (board s1) i j \<le> 9"
        "consistent (board s1)"
        using c by (simp_all add: searchPost_def)
      have "filledIn (board s1)"
        unfolding filledIn_iff
      proof (intro allI impI)
        fix i j assume ij: "i < (9::nat)" "j < (9::nat)"
        show "1 \<le> cell (board s1) i j \<and> cell (board s1) i j \<le> 9"
        proof (cases "cell g i j = 0")
          case True with p(3) ij show ?thesis by blast
        next
          case False
          with p(2) ij have "cell (board s1) i j = cell g i j" unfolding keepsGivens_iff by blast
          with wf_board_cell[OF assms(1) ij] False show ?thesis by simp
        qed
      qed
      with p have "legalCompletion g (board s1)"
        by (simp add: legalCompletion_def filled_consistent_noRepeats)
      with assms(5) show False by blast
    qed
  qed
  with r(1) sv fail show ?thesis
    by (intro exI[of _ ok] exI[of _ s1] exI[of _ ?st] exI[of _ "s1\<lparr>stats := ?st\<rparr>"])
       (simp add: getSolution_def getSolutionSteps_def)
qed

theorem failed_search_restores_witness:
  "wf_board deadEnd \<and> typedArrays newSolver \<and> length (emptyCells deadEnd) < 82
   \<and> (\<exists>st s'. solve 82 SIMPLE (setBoard deadEnd newSolver) = Some (st, s')
         \<and> getSolution s' = deadEnd \<and> getSolutionSteps s' = [])"
proof -
  have wf: "wf_board deadEnd" by code_simp
  have len: "length (emptyCells deadEnd) < 82" using length_emptyCells[of deadEnd] by simp
  have b9: "is9x9 (board (setBoard deadEnd newSolver))"
    using wf by (simp add: board_setBoard wf_board_is9x9)
  have ev: "map_option fst (solveSimple 82 (setBoard deadEnd newSolver)) = Some False"
    by code_simp
  have nosol: "\<not> (\<exists>sol. legalCompletion deadEnd sol)"
  proof
    assume "\<exists>sol. legalCompletion deadEnd sol"
    with solveSimple_post[OF b9, of 82] len ev show False
      by (auto simp: board_setBoard)
  qed
  have run: "map_option fst (runAlgorithm 82 SIMPLE ((setBoard deadEnd newSolver)\<lparr>solutionSteps := []\<rparr>))
      = Some False"
    using ev by (simp add: runAlgorithm_def setBoard_def)
  from failed_search_restores[OF wf typedArrays_newSolver len _ nosol, of SIMPLE] run
  have "\<exists>st s'. solve 82 SIMPLE (setBoard deadEnd newSolver) = Some (st, s')
         \<and> getSolution s' = deadEnd \<and> getSolutionSteps s' = []"
    by auto
  with wf len typedArrays_newSolver show ?thesis by blast
qed

section \<open>Doubly linked circular lists\<close>

text \<open>
  \<open>chain nxt prv a xs b\<close>: following \<open>nxt\<close> from \<open>a\<close> visits \<open>xs\<close> and then \<open>b\<close>, and
  \<open>prv\<close> leads back.
\<close>

fun chain :: "(nat \<Rightarrow> nat) \<Rightarrow> (nat \<Rightarrow> nat) \<Rightarrow> nat \<Rightarrow> nat list \<Rightarrow> nat \<Rightarrow> bool" where
  "chain nxt prv a [] b = (nxt a = b \<and> prv b = a)"
| "chain nxt prv a (x # xs) b = (nxt a = x \<and> prv x = a \<and> chain nxt prv x xs b)"

definition cyc :: "(nat \<Rightarrow> nat) \<Rightarrow> (nat \<Rightarrow> nat) \<Rightarrow> nat \<Rightarrow> nat list \<Rightarrow> bool" where
  "cyc nxt prv c xs = (chain nxt prv c xs c \<and> distinct (c # xs))"

lemma chain_append:
  "chain nxt prv a (xs @ y # ys) b = (chain nxt prv a xs y \<and> chain nxt prv y ys b)"
  by (induction xs arbitrary: a) auto

lemma chain_snoc: "chain nxt prv a (xs @ [y]) b = (chain nxt prv a xs y \<and> nxt y = b \<and> prv b = y)"
  by (simp add: chain_append)

lemma chain_frame:
  assumes "\<forall>z \<in> insert a (set xs). nxt' z = nxt z" "\<forall>z \<in> insert b (set xs). prv' z = prv z"
  shows "chain nxt' prv' a xs b = chain nxt prv a xs b"
  using assms by (induction xs arbitrary: a) auto

lemma chain_ends:
  assumes "chain nxt prv a (xs @ y # ys) b"
  shows "prv y = last (a # xs)" "nxt y = hd (ys @ [b])"
proof -
  from assms have 1: "chain nxt prv a xs y" and 2: "chain nxt prv y ys b"
    by (simp_all add: chain_append)
  from 1 show "prv y = last (a # xs)"
    by (induction xs arbitrary: a) auto
  from 2 show "nxt y = hd (ys @ [b])" by (cases ys) auto
qed

lemma chain_remove:
  assumes "chain nxt prv a (xs @ y # ys) b" "distinct (a # xs @ y # ys)" "b \<notin> set (xs @ y # ys)"
  shows "chain (nxt(prv y := nxt y)) (prv(nxt y := prv y)) a (xs @ ys) b"
  using assms
proof (induction xs arbitrary: a)
  case Nil
  then have a: "nxt a = y" "prv y = a" "chain nxt prv y ys b" by simp_all
  show ?case
  proof (cases ys)
    case Nil
    with a show ?thesis by simp
  next
    case (Cons z zs)
    with a have z: "nxt y = z" "prv z = y" "chain nxt prv z zs b" by simp_all
    have "chain (nxt(a := z)) (prv(z := a)) z zs b = chain nxt prv z zs b"
      using Nil.prems(2,3) Cons by (intro chain_frame) auto
    with z(3) have f: "chain (nxt(a := z)) (prv(z := a)) z zs b" by simp
    have g: "chain (nxt(a := z)) (prv(z := a)) a (z # zs) b" using f by simp
    have e: "prv y = a" "nxt y = z" "[] @ ys = z # zs" using a(2) z(1) Cons by simp_all
    show ?thesis unfolding e by (rule g)
  qed
next
  case (Cons x xs)
  then have a: "nxt a = x" "prv x = a" "chain nxt prv x (xs @ y # ys) b" by simp_all
  note e = chain_ends[OF a(3)]
  have d: "distinct (x # xs @ y # ys)" "b \<notin> set (xs @ y # ys)"
    using Cons.prems(2,3) by simp_all
  have ih: "chain (nxt(prv y := nxt y)) (prv(nxt y := prv y)) x (xs @ ys) b"
    by (rule Cons.IH[OF a(3) d])
  have "last (x # xs) \<in> set (x # xs)" by (rule last_in_set) simp
  then have p: "prv y \<noteq> a" using e(1) Cons.prems(2) by auto
  have n: "nxt y \<noteq> x"
    using e(2) Cons.prems(2,3) by (cases ys) auto
  have "(nxt(prv y := nxt y)) a = x" "(prv(nxt y := prv y)) x = a"
    using p n a(1,2) by simp_all
  with ih show ?case by (simp only: chain.simps append_Cons)
qed

lemma cyc_remove:
  assumes "cyc nxt prv c (xs @ y # ys)"
  shows "cyc (nxt(prv y := nxt y)) (prv(nxt y := prv y)) c (xs @ ys)"
  using assms chain_remove[of nxt prv c xs y ys c] by (auto simp: cyc_def)

lemma cyc_linked:
  assumes "cyc nxt prv c zs" "y \<in> set zs"
  shows "prv (nxt y) = y" "nxt (prv y) = y" "nxt y \<noteq> y" "prv y \<noteq> y"
proof -
  from assms(2) obtain xs ys where zs: "zs = xs @ y # ys" by (meson split_list)
  from assms(1) have ch: "chain nxt prv c (xs @ y # ys) c" and d: "distinct (c # xs @ y # ys)"
    by (simp_all add: cyc_def zs)
  note e = chain_ends[OF ch]
  from ch have 1: "chain nxt prv c xs y" and 2: "chain nxt prv y ys c"
    by (simp_all add: chain_append)
  from 2 show "prv (nxt y) = y" by (cases ys) auto
  from 1 show "nxt (prv y) = y" by (induction xs arbitrary: c) auto
  from e(2) d show "nxt y \<noteq> y" by (cases ys) auto
  from e(1) d show "prv y \<noteq> y" by (auto simp: last_ConsR dest: last_in_set split: if_splits)
qed

lemma cyc_neighbours:
  assumes "cyc nxt prv c zs" "y \<in> set zs"
  shows "nxt y \<in> insert c (set zs)" "prv y \<in> insert c (set zs)"
proof -
  from assms(2) obtain xs ys where zs: "zs = xs @ y # ys" by (meson split_list)
  from assms(1) have ch: "chain nxt prv c (xs @ y # ys) c" by (simp add: cyc_def zs)
  note e = chain_ends[OF ch]
  show "nxt y \<in> insert c (set zs)" unfolding e(2) zs by (cases ys) auto
  show "prv y \<in> insert c (set zs)" unfolding e(1) zs
    by (cases xs rule: rev_cases) auto
qed

lemma cyc_head:
  assumes "cyc nxt prv c zs"
  shows "nxt c = hd (zs @ [c])" "prv c = last (c # zs)"
proof -
  from assms have ch: "chain nxt prv c zs c" by (simp add: cyc_def)
  then show "nxt c = hd (zs @ [c])" by (cases zs) auto
  from ch show "prv c = last (c # zs)"
  proof (cases zs rule: rev_cases)
    case Nil with ch show ?thesis by simp
  next
    case (snoc ys y)
    with ch show ?thesis by (simp add: chain_snoc)
  qed
qed

lemma cyc_frame:
  assumes "\<forall>z \<in> insert c (set xs). nxt' z = nxt z \<and> prv' z = prv z"
  shows "cyc nxt' prv' c xs = cyc nxt prv c xs"
  unfolding cyc_def using chain_frame[of c xs nxt' nxt c prv' prv] assms by auto

section \<open>The matrix as linked lists\<close>

text \<open>The other nodes of the row of \<open>x\<close>, in the order the loop over \<open>right\<close> meets them.\<close>

definition others :: "Matrix \<Rightarrow> nat \<Rightarrow> nat list" where
  "others m x = [right m x, right m (right m x), right m (right m (right m x))]"

definition rowRing :: "Matrix \<Rightarrow> nat \<Rightarrow> bool" where
  "rowRing m x =
     (let y1 = right m x; y2 = right m y1; y3 = right m y2
      in right m y3 = x \<and> left m x = y3 \<and> left m y3 = y2 \<and> left m y2 = y1 \<and> left m y1 = x
         \<and> distinct [column m x, column m y1, column m y2, column m y3])"

text \<open>
  The vertical lists of the columns in \<open>C\<close>: column \<open>c\<close> heads the circular list \<open>vl c\<close>,
  whose nodes name \<open>c\<close> as their column, and counts its members.
\<close>

definition vlists :: "Matrix \<Rightarrow> nat set \<Rightarrow> (nat \<Rightarrow> nat list) \<Rightarrow> bool" where
  "vlists m C vl =
     (\<forall>c \<in> C. column m c = c \<and> cyc (down m) (up m) c (vl c)
        \<and> colSize m c = int (length (vl c)) \<and> (\<forall>x \<in> set (vl c). column m x = c))"

lemma vlists_disjoint:
  assumes "vlists m C vl" "c \<in> C" "c' \<in> C" "c \<noteq> c'" "z \<in> insert c (set (vl c))"
  shows "z \<notin> insert c' (set (vl c'))"
  using assms unfolding vlists_def by (metis insert_iff)

lemma down_unlinkNode: "down (unlinkNode y m) = (down m)(up m y := down m y)"
  by (simp add: unlinkNode_def Let_def)

lemma up_unlinkNode: "up (unlinkNode y m) = (up m)(down m y := up m y)"
  by (simp add: unlinkNode_def Let_def)

lemma colSize_unlinkNode:
  "colSize (unlinkNode y m) = (colSize m)(column m y := colSize m (column m y) - 1)"
  by (simp add: unlinkNode_def Let_def)

lemma other_unlinkNode [simp]:
  "left (unlinkNode y m) = left m" "right (unlinkNode y m) = right m"
  "column (unlinkNode y m) = column m" "nodeRow (unlinkNode y m) = nodeRow m"
  "nodeCol (unlinkNode y m) = nodeCol m" "nodeNum (unlinkNode y m) = nodeNum m"
  "nextId (unlinkNode y m) = nextId m"
  by (simp_all add: unlinkNode_def Let_def)

lemma other_relinkNode [simp]:
  "left (relinkNode y m) = left m" "right (relinkNode y m) = right m"
  "column (relinkNode y m) = column m" "nodeRow (relinkNode y m) = nodeRow m"
  "nodeCol (relinkNode y m) = nodeCol m" "nodeNum (relinkNode y m) = nodeNum m"
  "nextId (relinkNode y m) = nextId m"
  by (simp_all add: relinkNode_def Let_def)

lemma relink_unlink:
  assumes "up m (down m y) = y" "down m (up m y) = y"
  shows "relinkNode y (unlinkNode y m) = m"
proof -
  let ?m1 = "unlinkNode y m"
  have d1: "down ?m1 y = down m y" by (simp add: down_unlinkNode)
  have u1: "up ?m1 y = up m y" by (simp add: up_unlinkNode)
  have s: "(colSize ?m1)(column ?m1 y := colSize ?m1 (column ?m1 y) + 1) = colSize m"
    by (simp add: colSize_unlinkNode fun_eq_iff)
  have u: "(up ?m1)(down m y := y) = up m"
    using assms(1) by (simp add: up_unlinkNode fun_eq_iff)
  have d: "(down ?m1)(up m y := y) = down m"
    using assms(2) by (simp add: down_unlinkNode fun_eq_iff)
  have u2: "((up ?m1)(down m y := y)) y = up m y" unfolding u ..
  show ?thesis
    unfolding relinkNode_def Let_def
    apply (simp add: d1 u2 s u d del: fun_upd_apply)
    apply (simp add: unlinkNode_def Let_def)
    done
qed


lemma filter_neq_split:
  assumes "distinct (xs @ y # ys)"
  shows "filter (\<lambda>z. z \<noteq> y) (xs @ y # ys) = xs @ ys"
proof -
  have "filter (\<lambda>z. z \<noteq> y) xs = xs" "filter (\<lambda>z. z \<noteq> y) ys = ys"
    using assms by (auto intro!: filter_True)
  then show ?thesis by simp
qed

lemma vlists_unlinkNode:
  assumes v: "vlists m C vl" and c: "column m y \<in> C" and y: "y \<in> set (vl (column m y))"
  shows "vlists (unlinkNode y m) C (\<lambda>c. filter (\<lambda>z. z \<noteq> y) (vl c))"
    and "relinkNode y (unlinkNode y m) = m"
    and "\<And>z. column m z \<notin> C \<Longrightarrow> down (unlinkNode y m) z = down m z \<and> up (unlinkNode y m) z = up m z"
    and "\<And>c. c \<notin> C \<Longrightarrow> colSize (unlinkNode y m) c = colSize m c"
proof -
  let ?c = "column m y"
  let ?m' = "unlinkNode y m"
  from v c have cy: "cyc (down m) (up m) ?c (vl ?c)" and cc: "column m ?c = ?c"
    and sz: "colSize m ?c = int (length (vl ?c))" and colc: "\<forall>x \<in> set (vl ?c). column m x = ?c"
    by (simp_all add: vlists_def)
  note lk = cyc_linked[OF cy y] and nb = cyc_neighbours[OF cy y]
  show "relinkNode y ?m' = m" by (rule relink_unlink[OF lk(1,2)])
  have colnb: "column m (down m y) = ?c" "column m (up m y) = ?c"
    using nb cc colc by auto
  show "\<And>z. column m z \<notin> C \<Longrightarrow> down ?m' z = down m z \<and> up ?m' z = up m z"
    using colnb c by (auto simp: down_unlinkNode up_unlinkNode)
  show "\<And>c. c \<notin> C \<Longrightarrow> colSize ?m' c = colSize m c"
    using c by (auto simp: colSize_unlinkNode)
  from y obtain xs ys where sp: "vl ?c = xs @ y # ys" by (meson split_list)
  have dist: "distinct (xs @ y # ys)" using cy by (simp add: cyc_def sp)
  have fl: "filter (\<lambda>z. z \<noteq> y) (vl ?c) = xs @ ys"
    unfolding sp by (rule filter_neq_split[OF dist])
  show "vlists ?m' C (\<lambda>c. filter (\<lambda>z. z \<noteq> y) (vl c))"
    unfolding vlists_def
  proof (intro ballI conjI)
    fix c' assume c': "c' \<in> C"
    from v c' have cy': "cyc (down m) (up m) c' (vl c')" and cc': "column m c' = c'"
      and sz': "colSize m c' = int (length (vl c'))" and colc': "\<forall>x \<in> set (vl c'). column m x = c'"
      by (simp_all add: vlists_def)
    show "column ?m' c' = c'" using cc' by simp
    show "cyc (down ?m') (up ?m') c' (filter (\<lambda>z. z \<noteq> y) (vl c'))"
    proof (cases "c' = ?c")
      case True
      have "cyc ((down m)(up m y := down m y)) ((up m)(down m y := up m y)) ?c (xs @ ys)"
        using cyc_remove[of "down m" "up m" ?c xs y ys] cy unfolding sp by simp
      then show ?thesis unfolding True fl down_unlinkNode up_unlinkNode .
    next
      case False
      have ny: "y \<notin> set (vl c')" using colc' False by auto
      then have f: "filter (\<lambda>z. z \<noteq> y) (vl c') = vl c'" by (auto simp: filter_id_conv)
      have "\<forall>z \<in> insert c' (set (vl c')). down ?m' z = down m z \<and> up ?m' z = up m z"
        using colnb False cc' colc' by (auto simp: down_unlinkNode up_unlinkNode)
      from cyc_frame[OF this] cy' show ?thesis unfolding f by simp
    qed
    show "colSize ?m' c' = int (length (filter (\<lambda>z. z \<noteq> y) (vl c')))"
    proof (cases "c' = ?c")
      case True
      show ?thesis unfolding True fl using sz by (simp add: colSize_unlinkNode sp)
    next
      case False
      have ny: "y \<notin> set (vl c')" using colc' False by auto
      then have f: "filter (\<lambda>z. z \<noteq> y) (vl c') = vl c'" by (auto simp: filter_id_conv)
      show ?thesis unfolding f using sz' False by (simp add: colSize_unlinkNode)
    qed
    show "column ?m' x = c'" if "x \<in> set (filter (\<lambda>z. z \<noteq> y) (vl c'))" for x
      using colc' that by simp
  qed
qed

definition unlinkAll :: "nat list \<Rightarrow> Matrix \<Rightarrow> Matrix" where
  "unlinkAll ys m = foldl (\<lambda>m y. unlinkNode y m) m ys"

definition relinkAll :: "nat list \<Rightarrow> Matrix \<Rightarrow> Matrix" where
  "relinkAll ys m = foldl (\<lambda>m y. relinkNode y m) m ys"

lemma unlinkAll_simps [simp]:
  "unlinkAll [] m = m" "unlinkAll (y # ys) m = unlinkAll ys (unlinkNode y m)"
  "unlinkAll (xs @ ys) m = unlinkAll ys (unlinkAll xs m)"
  by (simp_all add: unlinkAll_def)

lemma relinkAll_simps [simp]:
  "relinkAll [] m = m" "relinkAll (y # ys) m = relinkAll ys (relinkNode y m)"
  "relinkAll (xs @ ys) m = relinkAll ys (relinkAll xs m)"
  by (simp_all add: relinkAll_def)

lemma other_unlinkAll [simp]:
  "left (unlinkAll ys m) = left m" "right (unlinkAll ys m) = right m"
  "column (unlinkAll ys m) = column m" "nodeRow (unlinkAll ys m) = nodeRow m"
  "nodeCol (unlinkAll ys m) = nodeCol m" "nodeNum (unlinkAll ys m) = nodeNum m"
  "nextId (unlinkAll ys m) = nextId m"
  by (induction ys arbitrary: m; simp)+

lemma other_relinkAll [simp]:
  "left (relinkAll ys m) = left m" "right (relinkAll ys m) = right m"
  "column (relinkAll ys m) = column m" "nodeRow (relinkAll ys m) = nodeRow m"
  "nodeCol (relinkAll ys m) = nodeCol m" "nodeNum (relinkAll ys m) = nodeNum m"
  "nextId (relinkAll ys m) = nextId m"
  by (induction ys arbitrary: m; simp)+

lemma vlists_unlinkAll_aux:
  assumes "vlists m C vl" "distinct ys" "\<forall>y \<in> set ys. column m y \<in> C \<and> y \<in> set (vl (column m y))"
  shows "vlists (unlinkAll ys m) C (\<lambda>c. filter (\<lambda>z. z \<notin> set ys) (vl c))
    \<and> relinkAll (rev ys) (unlinkAll ys m) = m
    \<and> (\<forall>z. column m z \<notin> C \<longrightarrow> down (unlinkAll ys m) z = down m z \<and> up (unlinkAll ys m) z = up m z)
    \<and> (\<forall>c. c \<notin> C \<longrightarrow> colSize (unlinkAll ys m) c = colSize m c)"
  using assms
proof (induction ys arbitrary: m vl)
  case Nil
  then show ?case by simp
next
  case (Cons y ys)
  note v = Cons.prems(1) and d = Cons.prems(2) and el = Cons.prems(3)
  let ?m1 = "unlinkNode y m"
  let ?vl1 = "\<lambda>c. filter (\<lambda>z. z \<noteq> y) (vl c)"
  from el have c: "column m y \<in> C" and y: "y \<in> set (vl (column m y))" by simp_all
  note st = vlists_unlinkNode[OF v c y]
  have d': "distinct ys" using d by simp
  have el': "\<forall>z \<in> set ys. column ?m1 z \<in> C \<and> z \<in> set (?vl1 (column ?m1 z))"
    using el d by auto
  note ih = Cons.IH[OF st(1) d' el']
  have "(\<lambda>c. filter (\<lambda>z. z \<notin> set ys) (?vl1 c)) = (\<lambda>c. filter (\<lambda>z. z \<notin> set (y # ys)) (vl c))"
    by (auto simp: fun_eq_iff intro: filter_cong)
  with ih have A: "vlists (unlinkAll (y # ys) m) C (\<lambda>c. filter (\<lambda>z. z \<notin> set (y # ys)) (vl c))"
    by simp
  have B: "relinkAll (rev (y # ys)) (unlinkAll (y # ys) m) = m"
    using ih st(2) by simp
  have C: "\<forall>z. column m z \<notin> C \<longrightarrow>
      down (unlinkAll (y # ys) m) z = down m z \<and> up (unlinkAll (y # ys) m) z = up m z"
    using ih st(3) by simp
  have D: "\<forall>c. c \<notin> C \<longrightarrow> colSize (unlinkAll (y # ys) m) c = colSize m c"
    using ih st(4) by simp
  from A B C D show ?case by blast
qed

lemmas vlists_unlinkAll = vlists_unlinkAll_aux[THEN conjunct1]
  and relinkAll_unlinkAll = vlists_unlinkAll_aux[THEN conjunct2, THEN conjunct1]

lemma unlinkAll_frame:
  assumes "vlists m C vl" "distinct ys" "\<forall>y \<in> set ys. column m y \<in> C \<and> y \<in> set (vl (column m y))"
    and "column m z \<notin> C"
  shows "down (unlinkAll ys m) z = down m z" "up (unlinkAll ys m) z = up m z"
  using vlists_unlinkAll_aux[OF assms(1-3)] assms(4) by blast+

lemma unlinkAll_colSize:
  assumes "vlists m C vl" "distinct ys" "\<forall>y \<in> set ys. column m y \<in> C \<and> y \<in> set (vl (column m y))"
    and "c \<notin> C"
  shows "colSize (unlinkAll ys m) c = colSize m c"
  using vlists_unlinkAll_aux[OF assms(1-3)] assms(4) by blast

lemma rowRing_distinct:
  assumes "rowRing m x"
  shows "distinct (x # others m x)"
  using assms unfolding rowRing_def others_def Let_def by (auto simp: distinct_length_2_or_more)

lemma cover_row_others:
  assumes "rowRing m x"
  shows "cover_row x (right m x) m = Some (unlinkAll (others m x) m)"
proof -
  let ?y1 = "right m x" let ?y2 = "right m ?y1" let ?y3 = "right m ?y2"
  from rowRing_distinct[OF assms] have d: "?y1 \<noteq> x" "?y2 \<noteq> x" "?y3 \<noteq> x"
    by (auto simp: others_def)
  from assms have r: "right m ?y3 = x" by (simp add: rowRing_def Let_def)
  let ?m1 = "unlinkNode ?y1 m" let ?m2 = "unlinkNode ?y2 ?m1" let ?m3 = "unlinkNode ?y3 ?m2"
  have "cover_row x ?y1 m = cover_row x ?y2 ?m1"
    using d(1) by (subst cover_row.simps) (simp add: Let_def)
  also have "\<dots> = cover_row x ?y3 ?m2"
    using d(2) by (subst cover_row.simps) (simp add: Let_def)
  also have "\<dots> = cover_row x x ?m3"
    using d(3) r by (subst cover_row.simps) (simp add: Let_def)
  also have "\<dots> = Some ?m3" by (subst cover_row.simps) simp
  finally show ?thesis by (simp add: others_def)
qed

lemma uncover_row_others:
  assumes "rowRing m x"
  shows "uncover_row x (left m x) m = Some (relinkAll (rev (others m x)) m)"
proof -
  let ?y1 = "right m x" let ?y2 = "right m ?y1" let ?y3 = "right m ?y2"
  from rowRing_distinct[OF assms] have d: "?y1 \<noteq> x" "?y2 \<noteq> x" "?y3 \<noteq> x"
    by (auto simp: others_def)
  from assms have l: "left m x = ?y3" "left m ?y3 = ?y2" "left m ?y2 = ?y1" "left m ?y1 = x"
    by (simp_all add: rowRing_def Let_def)
  let ?m1 = "relinkNode ?y3 m" let ?m2 = "relinkNode ?y2 ?m1" let ?m3 = "relinkNode ?y1 ?m2"
  have "uncover_row x ?y3 m = uncover_row x ?y2 ?m1"
    using d(3) l by (subst uncover_row.simps) (simp add: Let_def)
  also have "\<dots> = uncover_row x ?y1 ?m2"
    using d(2) l by (subst uncover_row.simps) (simp add: Let_def)
  also have "\<dots> = uncover_row x x ?m3"
    using d(1) l by (subst uncover_row.simps) (simp add: Let_def)
  also have "\<dots> = Some ?m3" by (subst uncover_row.simps) simp
  finally show ?thesis by (simp add: others_def l(1))
qed

lemma others_unlinkAll [simp]: "others (unlinkAll ys m) = others m"
  by (simp add: fun_eq_iff others_def)

lemma others_relinkAll [simp]: "others (relinkAll ys m) = others m"
  by (simp add: fun_eq_iff others_def)

lemma rowRing_unlinkAll [simp]: "rowRing (unlinkAll ys m) = rowRing m"
  by (simp add: fun_eq_iff rowRing_def)

lemma rowRing_cong:
  "left m' = left m \<Longrightarrow> right m' = right m \<Longrightarrow> column m' = column m \<Longrightarrow> rowRing m' x = rowRing m x"
  by (simp add: rowRing_def)

lemma others_cong: "right m' = right m \<Longrightarrow> others m' x = others m x"
  by (simp add: others_def)

text \<open>
  What the two nested loops of \<open>cover\<close> need of the rows they walk: the rows hang below
  each other, each is a ring of four nodes, and the other three nodes of each still stand
  in the lists of their columns \<open>C\<close>.
\<close>

definition coverable :: "Matrix \<Rightarrow> nat set \<Rightarrow> (nat \<Rightarrow> nat list) \<Rightarrow> nat list \<Rightarrow> bool" where
  "coverable m C vl rws =
     (vlists m C vl \<and> distinct (concat (map (others m) rws))
      \<and> (\<forall>x \<in> set rws. column m x \<notin> C \<and> rowRing m x
            \<and> (\<forall>y \<in> set (others m x). column m y \<in> C \<and> y \<in> set (vl (column m y)))))"

definition removed :: "Matrix \<Rightarrow> nat list \<Rightarrow> nat list" where
  "removed m rws = concat (map (others m) rws)"

lemma coverable_block:
  assumes "coverable m C vl (x # rws)"
  shows "distinct (others m x)"
    "\<forall>y \<in> set (others m x). column m y \<in> C \<and> y \<in> set (vl (column m y))"
    "coverable (unlinkAll (others m x) m) C (\<lambda>c. filter (\<lambda>z. z \<notin> set (others m x)) (vl c)) rws"
proof -
  from assms have v: "vlists m C vl" and d: "distinct (others m x @ concat (map (others m) rws))"
    and el: "\<forall>y \<in> set (others m x). column m y \<in> C \<and> y \<in> set (vl (column m y))"
    and rest: "\<forall>x' \<in> set rws. column m x' \<notin> C \<and> rowRing m x'
            \<and> (\<forall>y \<in> set (others m x'). column m y \<in> C \<and> y \<in> set (vl (column m y)))"
    by (simp_all add: coverable_def)
  from d show dx: "distinct (others m x)" by simp
  show "\<forall>y \<in> set (others m x). column m y \<in> C \<and> y \<in> set (vl (column m y))" by (rule el)
  let ?m1 = "unlinkAll (others m x) m"
  have o: "\<And>z. others ?m1 z = others m z" by (simp add: others_def)
  have rr: "\<And>z. rowRing ?m1 z = rowRing m z" by (simp add: rowRing_def)
  have "\<forall>x' \<in> set rws. \<forall>y \<in> set (others m x'). y \<notin> set (others m x)"
    using d by auto
  with rest have "\<forall>x' \<in> set rws. column m x' \<notin> C \<and> rowRing m x'
      \<and> (\<forall>y \<in> set (others m x'). column m y \<in> C
            \<and> y \<in> set (filter (\<lambda>z. z \<notin> set (others m x)) (vl (column m y))))"
    by auto
  moreover have "distinct (concat (map (others m) rws))" using d by simp
  ultimately show "coverable ?m1 C (\<lambda>c. filter (\<lambda>z. z \<notin> set (others m x)) (vl c)) rws"
    unfolding coverable_def o rr using vlists_unlinkAll[OF v dx el] by simp
qed

lemma cover_rows_traverse:
  assumes "coverable m C vl rws" "chain (down m) (up m) a rws c" "c \<notin> set rws"
    "column m c \<notin> C"
  shows "cover_rows c (hd (rws @ [c])) m = Some (unlinkAll (removed m rws) m)"
  using assms
proof (induction rws arbitrary: m vl a)
  case Nil
  then show ?case by (subst cover_rows.simps) (simp add: removed_def)
next
  case (Cons x rws)
  note cb = coverable_block[OF Cons.prems(1)]
  from Cons.prems(1) have v: "vlists m C vl" and xc: "column m x \<notin> C" and rr: "rowRing m x"
    and nc: "\<forall>z \<in> set rws. column m z \<notin> C"
    by (simp_all add: coverable_def)
  from Cons.prems(2) have ch: "chain (down m) (up m) x rws c" by simp
  from Cons.prems(3) have ne: "x \<noteq> c" and c': "c \<notin> set rws" by auto
  let ?m1 = "unlinkAll (others m x) m"
  note fr = unlinkAll_frame[OF v cb(1,2)]
  note cC = Cons.prems(4)
  have dn: "down ?m1 x = hd (rws @ [c])"
    using fr(1)[OF xc] ch by (cases rws) auto
  have ch1: "chain (down ?m1) (up ?m1) x rws c"
  proof -
    have "chain (down ?m1) (up ?m1) x rws c = chain (down m) (up m) x rws c"
    proof (rule chain_frame)
      show "\<forall>z\<in>insert x (set rws). down ?m1 z = down m z" using fr(1) xc nc by auto
      show "\<forall>z\<in>insert c (set rws). up ?m1 z = up m z" using fr(2) cC nc by auto
    qed
    with ch show ?thesis by simp
  qed
  have "cover_rows c x m = cover_rows c (down ?m1 x) ?m1"
    using ne cover_row_others[OF rr] by (subst cover_rows.simps) simp
  also have "\<dots> = Some (unlinkAll (removed ?m1 rws) ?m1)"
    unfolding dn by (rule Cons.IH[OF cb(3) ch1 c']) (use cC in simp)
  finally show ?case by (simp add: removed_def)
qed


lemma coverable_prefix:
  assumes "coverable m C vl (rws @ [x])"
  shows "coverable m C vl rws" "distinct (removed m rws)" "distinct (others m x)"
    "\<forall>y \<in> set (removed m rws). column m y \<in> C \<and> y \<in> set (vl (column m y))"
    "\<forall>y \<in> set (others m x). column m y \<in> C
        \<and> y \<in> set (filter (\<lambda>z. z \<notin> set (removed m rws)) (vl (column m y)))"
    "column m x \<notin> C" "rowRing m x"
  using assms unfolding coverable_def removed_def by auto

lemma uncover_rows_traverse:
  assumes "coverable m C vl rws" "chain (down m) (up m) c rws b" "c \<notin> set rws"
  shows "uncover_rows c (last (c # rws)) (unlinkAll (removed m rws) m) = Some m"
  using assms
proof (induction rws arbitrary: b rule: rev_induct)
  case Nil
  then show ?case by (subst uncover_rows.simps) (simp add: removed_def)
next
  case (snoc x rws)
  note cp = coverable_prefix[OF snoc.prems(1)]
  from snoc.prems(1) have v: "vlists m C vl" by (simp add: coverable_def)
  from snoc.prems(2) have ch: "chain (down m) (up m) c rws x" by (simp add: chain_snoc)
  from snoc.prems(3) have ne: "x \<noteq> c" and c': "c \<notin> set rws" by auto
  let ?m2 = "unlinkAll (removed m rws) m"
  let ?m1 = "unlinkAll (others m x) ?m2"
  have e: "unlinkAll (removed m (rws @ [x])) m = ?m1" by (simp add: removed_def)
  note v2 = vlists_unlinkAll[OF v cp(2,4)]
  have el: "\<forall>y \<in> set (others m x). column ?m2 y \<in> C
      \<and> y \<in> set (filter (\<lambda>z. z \<notin> set (removed m rws)) (vl (column ?m2 y)))"
    using cp(5) by simp
  have bk: "relinkAll (rev (others m x)) ?m1 = ?m2"
    by (rule relinkAll_unlinkAll[OF v2 cp(3) el])
  have upx: "up ?m2 x = last (c # rws)"
  proof -
    have "up ?m2 x = up m x" by (rule unlinkAll_frame(2)[OF v cp(2,4,6)])
    also have "\<dots> = last (c # rws)"
      using chain_ends(1)[of "down m" "up m" c rws x "[]" b] snoc.prems(2) by simp
    finally show ?thesis .
  qed
  have rr: "rowRing ?m1 x" using cp(7) by simp
  have "uncover_rows c x ?m1 = uncover_rows c (up ?m2 x) ?m2"
    using ne uncover_row_others[OF rr] bk by (subst uncover_rows.simps) simp
  also have "\<dots> = Some m"
    unfolding upx by (rule snoc.IH[OF cp(1) ch c'])
  finally show ?case unfolding e by simp
qed

section \<open>Cover and uncover\<close>

text \<open>
  The shape of the matrix while columns are covered: the live columns \<open>L\<close> form the header
  list, each heads the list \<open>vl c\<close> of its rows, and every row met there is a ring of four
  nodes standing in the lists of four live columns.
\<close>

definition dl :: "Matrix \<Rightarrow> nat \<Rightarrow> nat list \<Rightarrow> (nat \<Rightarrow> nat list) \<Rightarrow> bool" where
  "dl m h L vl =
     (cyc (right m) (left m) h L \<and> vlists m (set L) vl
      \<and> (\<forall>c \<in> set L. \<forall>x \<in> set (vl c).
            x \<notin> insert h (set L) \<and> rowRing m x
            \<and> (\<forall>y \<in> set (others m x). column m y \<in> set L \<and> y \<in> set (vl (column m y)))))"

lemma rowRing_ring:
  assumes "rowRing m x" "y \<in> set (others m x)"
  shows "rowRing m y" "set (y # others m y) = set (x # others m x)" "column m y \<noteq> column m x"
    "left m (right m x) = x"
  using assms unfolding rowRing_def others_def Let_def by auto

lemma rows_disjoint:
  assumes "rowRing m x" "rowRing m x'" "column m x = column m x'"
    "y \<in> set (others m x)" "y \<in> set (others m x')"
  shows "x = x'"
proof -
  from rowRing_ring(2)[OF assms(1,4)] rowRing_ring(2)[OF assms(2,5)]
  have "set (x # others m x) = set (x' # others m x')" by simp
  then have "x' = x \<or> x' \<in> set (others m x)" by auto
  with rowRing_ring(3)[OF assms(1)] assms(3) show ?thesis by auto
qed

lemma distinct_removed:
  assumes "distinct rws" "\<forall>x \<in> set rws. rowRing m x \<and> column m x = c"
  shows "distinct (removed m rws)"
  using assms
proof (induction rws)
  case Nil
  then show ?case by (simp add: removed_def)
next
  case (Cons x rws)
  have d: "distinct (others m x)" using rowRing_distinct[of m x] Cons.prems by simp
  have "set (others m x) \<inter> set (removed m rws) = {}"
  proof (rule ccontr)
    assume "set (others m x) \<inter> set (removed m rws) \<noteq> {}"
    then obtain y x' where y: "y \<in> set (others m x)" "x' \<in> set rws" "y \<in> set (others m x')"
      by (auto simp: removed_def)
    with Cons.prems have "x = x'" by (intro rows_disjoint[of m x x' y]) auto
    with y(2) Cons.prems(1) show False by simp
  qed
  with d Cons show ?case by (simp add: removed_def)
qed


definition unlinkColumn :: "nat \<Rightarrow> Matrix \<Rightarrow> Matrix" where
  "unlinkColumn c m =
     m\<lparr>left := (left m)(right m c := left m c), right := (right m)(left m c := right m c)\<rparr>"

lemma unlinkColumn_fields [simp]:
  "up (unlinkColumn c m) = up m" "down (unlinkColumn c m) = down m"
  "column (unlinkColumn c m) = column m" "colSize (unlinkColumn c m) = colSize m"
  "nodeRow (unlinkColumn c m) = nodeRow m" "nodeCol (unlinkColumn c m) = nodeCol m"
  "nodeNum (unlinkColumn c m) = nodeNum m"
  by (simp_all add: unlinkColumn_def)

lemma vlists_cong:
  "up m' = up m \<Longrightarrow> down m' = down m \<Longrightarrow> column m' = column m \<Longrightarrow> colSize m' = colSize m \<Longrightarrow>
   vlists m' C vl = vlists m C vl"
  by (simp add: vlists_def)

lemma vlists_mono: "vlists m C vl \<Longrightarrow> C' \<subseteq> C \<Longrightarrow> vlists m C' vl"
  by (auto simp: vlists_def)

lemma others_eqI:
  assumes "rowRing m x" "\<forall>z \<in> set (x # others m x). right m' z = right m z"
  shows "others m' x = others m x"
  using assms by (simp add: others_def)

lemma rowRing_eqI:
  assumes "rowRing m x" "\<forall>z \<in> set (x # others m x). right m' z = right m z \<and> left m' z = left m z"
    "column m' = column m"
  shows "rowRing m' x"
  using assms by (simp add: rowRing_def others_def Let_def)

lemma cover_dl:
  assumes d: "dl m h L vl" and c: "c \<in> set L"
  shows "\<exists>m'. cover c m = Some m' \<and> uncover c m' = Some m
      \<and> dl m' h (remove1 c L) (\<lambda>c'. filter (\<lambda>z. z \<notin> set (removed m (vl c))) (vl c'))
      \<and> m' = unlinkAll (removed m (vl c)) (unlinkColumn c m)"
proof -
  from d have ring: "cyc (right m) (left m) h L" and v: "vlists m (set L) vl"
    and cl: "\<forall>c \<in> set L. \<forall>x \<in> set (vl c).
            x \<notin> insert h (set L) \<and> rowRing m x
            \<and> (\<forall>y \<in> set (others m x). column m y \<in> set L \<and> y \<in> set (vl (column m y)))"
    by (simp_all add: dl_def)
  note lk = cyc_linked[OF ring c] and nb = cyc_neighbours[OF ring c]
  let ?m2 = "unlinkColumn c m"
  let ?C = "set L - {c}"
  let ?ys = "removed m (vl c)"
  let ?m' = "unlinkAll ?ys ?m2"
  from v c have vc: "cyc (down m) (up m) c (vl c)" and cc: "column m c = c"
    and colc: "\<forall>x \<in> set (vl c). column m x = c"
    by (simp_all add: vlists_def)
  have dvc: "distinct (vl c)" "c \<notin> set (vl c)" using vc by (simp_all add: cyc_def)
  \<comment> \<open>nodes of rows are no headers, so the header list does not touch them\<close>
  have lr: "right ?m2 z = right m z \<and> left ?m2 z = left m z" if "z \<notin> insert h (set L)" for z
    using that nb by (auto simp: unlinkColumn_def)
  have rows_c: "x \<notin> insert h (set L) \<and> rowRing m x
      \<and> (\<forall>y \<in> set (others m x). column m y \<in> set L \<and> y \<in> set (vl (column m y)))"
    if "c' \<in> set L" "x \<in> set (vl c')" for c' x
    using cl that by blast
  have node_ok: "\<forall>z \<in> set (x # others m x). z \<notin> insert h (set L)"
    if "c' \<in> set L" "x \<in> set (vl c')" for c' x
  proof
    fix z assume "z \<in> set (x # others m x)"
    then consider "z = x" | "z \<in> set (others m x)" by auto
    then show "z \<notin> insert h (set L)"
    proof cases
      case 1 with rows_c[OF that] show ?thesis by simp
    next
      case 2
      with rows_c[OF that] have "column m z \<in> set L" "z \<in> set (vl (column m z))" by auto
      from rows_c[OF this] show ?thesis by simp
    qed
  qed
  have oth: "others ?m2 x = others m x" and rr2: "rowRing ?m2 x"
    if "c' \<in> set L" "x \<in> set (vl c')" for c' x
  proof -
    from rows_c[OF that] have rr: "rowRing m x" by simp
    from node_ok[OF that] lr
    have e: "\<forall>z \<in> set (x # others m x). right ?m2 z = right m z \<and> left ?m2 z = left m z" by blast
    then show "others ?m2 x = others m x" by (intro others_eqI[OF rr]) blast
    from e show "rowRing ?m2 x" by (intro rowRing_eqI[OF rr]) simp_all
  qed
  have rem2: "removed ?m2 (vl c) = ?ys"
    unfolding removed_def using oth[OF c] by (auto intro: arg_cong[where f = concat])
  have v2: "vlists ?m2 ?C vl"
    using vlists_mono[OF v, of ?C] by (simp add: vlists_cong[of ?m2 m])
  have dys: "distinct ?ys"
    using distinct_removed[OF dvc(1), of m c] rows_c[OF c] colc by blast
  have cov: "coverable ?m2 ?C vl (vl c)"
    unfolding coverable_def
  proof (intro conjI ballI)
    show "vlists ?m2 ?C vl" by (rule v2)
    show "distinct (concat (map (others ?m2) (vl c)))" using dys rem2 by (simp add: removed_def)
    fix x assume x: "x \<in> set (vl c)"
    show "column ?m2 x \<notin> ?C" using colc x by simp
    show "rowRing ?m2 x" by (rule rr2[OF c x])
    fix y assume "y \<in> set (others ?m2 x)"
    then have y: "y \<in> set (others m x)" by (simp add: oth[OF c x])
    from rows_c[OF c x] y have "column m y \<in> set L" "y \<in> set (vl (column m y))" by auto
    moreover have "column m y \<noteq> c"
      using rowRing_ring(3)[of m x y] rows_c[OF c x] y colc x by auto
    ultimately show "column ?m2 y \<in> ?C" "y \<in> set (vl (column ?m2 y))" by simp_all
  qed
  have ch2: "chain (down ?m2) (up ?m2) c (vl c) c" using vc by (simp add: cyc_def)
  have cC: "column ?m2 c \<notin> ?C" using cc by simp
  have hd_c: "down ?m2 c = hd (vl c @ [c])" using cyc_head(1)[OF vc] by simp
  \<comment> \<open>the loops of cover\<close>
  have lc: "left (m\<lparr>left := (left m)(right m c := left m c)\<rparr>) c = left m c"
    using lk(3) by simp
  have cover_eq: "cover c m = Some ?m'"
  proof -
    have "cover c m = cover_rows c (down ?m2 c) ?m2"
      unfolding cover_def Let_def unlinkColumn_def using lk(3) by simp
    also have "\<dots> = Some (unlinkAll (removed ?m2 (vl c)) ?m2)"
      unfolding hd_c by (rule cover_rows_traverse[OF cov ch2 dvc(2) cC])
    finally show ?thesis by (simp add: rem2)
  qed
  \<comment> \<open>the loops of uncover\<close>
  have el: "\<forall>y \<in> set ?ys. column ?m2 y \<in> ?C \<and> y \<in> set (vl (column ?m2 y))"
  proof
    fix y assume "y \<in> set ?ys"
    then obtain x where x: "x \<in> set (vl c)" and y: "y \<in> set (others m x)"
      by (auto simp: removed_def)
    from rows_c[OF c x] y have "column m y \<in> set L" "y \<in> set (vl (column m y))" by auto
    moreover have "column m y \<noteq> c"
      using rowRing_ring(3)[of m x y] rows_c[OF c x] y colc x by auto
    ultimately show "column ?m2 y \<in> ?C \<and> y \<in> set (vl (column ?m2 y))" by simp
  qed
  have upc: "up ?m' c = last (c # vl c)"
    using unlinkAll_frame(2)[OF v2 dys el cC] cyc_head(2)[OF vc] by simp
  have unc: "uncover_rows c (last (c # vl c)) ?m' = Some ?m2"
    using uncover_rows_traverse[OF cov ch2 dvc(2)] by (simp add: rem2)
  have back2: "?m2\<lparr>left := (left ?m2)(right ?m2 c := c)\<rparr>
      \<lparr>right := (right ?m2)(left m c := c)\<rparr> = m"
  proof -
    have r2c: "right ?m2 c = right m c" using lk(4) by (simp add: unlinkColumn_def)
    have "(left ?m2)(right m c := c) = left m"
      using lk(1) by (simp add: unlinkColumn_def fun_eq_iff)
    moreover have "(right ?m2)(left m c := c) = right m"
      using lk(2) by (simp add: unlinkColumn_def fun_eq_iff)
    ultimately show ?thesis unfolding r2c by (simp add: unlinkColumn_def)
  qed
  have uncover_eq: "uncover c ?m' = Some m"
  proof -
    have l2: "left (?m2\<lparr>left := (left ?m2)(right ?m2 c := c)\<rparr>) c = left m c"
      using lk(3,4) by (simp add: unlinkColumn_def)
    show ?thesis
      unfolding uncover_def upc unc using back2 l2 by (simp add: Let_def)
  qed
  \<comment> \<open>the shape afterwards\<close>
  let ?vl' = "\<lambda>c'. filter (\<lambda>z. z \<notin> set ?ys) (vl c')"
  from c obtain xs zs where L: "L = xs @ c # zs" by (meson split_list)
  have dL: "distinct (h # L)" using ring by (simp add: cyc_def)
  have rmL: "remove1 c L = xs @ zs" using dL unfolding L by (simp add: remove1_append)
  have setL': "set (remove1 c L) = ?C" using dL by simp
  have r0: "cyc (right ?m2) (left ?m2) h (xs @ zs)"
    using cyc_remove[of "right m" "left m" h xs c zs] ring[unfolded L]
    by (simp add: unlinkColumn_def)
  have ring': "cyc (right ?m') (left ?m') h (remove1 c L)"
    unfolding rmL using r0 by simp
  have v': "vlists ?m' ?C ?vl'" by (rule vlists_unlinkAll[OF v2 dys el])
  have cl': "x \<notin> insert h ?C \<and> rowRing ?m' x
      \<and> (\<forall>y \<in> set (others ?m' x). column ?m' y \<in> ?C \<and> y \<in> set (?vl' (column ?m' y)))"
    if c': "c' \<in> ?C" and x: "x \<in> set (?vl' c')" for c' x
  proof -
    from c' x have cL: "c' \<in> set L" and xv: "x \<in> set (vl c')" and xn: "x \<notin> set ?ys" by auto
    note rx = rows_c[OF cL xv]
    have colx: "column m x = c'" using v cL xv by (auto simp: vlists_def)
    from rx have rrx: "rowRing m x" by simp
    have "\<forall>y \<in> set (others m x). column m y \<in> ?C \<and> y \<in> set (?vl' (column m y))"
    proof
      fix y assume y: "y \<in> set (others m x)"
      from rx y have yL: "column m y \<in> set L" and yv: "y \<in> set (vl (column m y))" by blast+
      have sxy: "set (y # others m y) = set (x # others m x)"
        by (rule rowRing_ring(2)[OF rrx y])
      have xin: "x \<in> set (y # others m y)" unfolding sxy by simp
      have "x \<noteq> y" using rowRing_distinct[OF rrx] y by auto
      with xin have xy: "x \<in> set (others m y)" by simp
      have ne: "column m y \<noteq> c"
      proof
        assume "column m y = c"
        with yv have "y \<in> set (vl c)" by simp
        with xy have "x \<in> set ?ys" unfolding removed_def by auto
        with xn show False by simp
      qed
      have ny: "y \<notin> set ?ys"
      proof
        assume "y \<in> set ?ys"
        then obtain z where z: "z \<in> set (vl c)" "y \<in> set (others m z)"
          unfolding removed_def by auto
        from rows_c[OF c z(1)] have rrz: "rowRing m z" by simp
        have szy: "set (y # others m y) = set (z # others m z)"
          by (rule rowRing_ring(2)[OF rrz z(2)])
        from xin have "x \<in> set (z # others m z)" unfolding szy .
        moreover have "x \<noteq> z" using colx colc z(1) c' by auto
        ultimately have "x \<in> set (others m z)" by simp
        with z(1) have "x \<in> set ?ys" unfolding removed_def by auto
        with xn show False by simp
      qed
      from ne ny yL yv show "column m y \<in> ?C \<and> y \<in> set (?vl' (column m y))" by simp
    qed
    moreover have "x \<notin> insert h ?C" using rx by blast
    moreover have "rowRing ?m' x" using rr2[OF cL xv] by simp
    moreover have "others ?m' x = others m x" using oth[OF cL xv] by simp
    moreover have "column ?m' = column m" by simp
    ultimately show ?thesis by simp
  qed
  have cl'': "\<forall>c' \<in> ?C. \<forall>x \<in> set (?vl' c'). x \<notin> insert h ?C \<and> rowRing ?m' x
      \<and> (\<forall>y \<in> set (others ?m' x). column ?m' y \<in> ?C \<and> y \<in> set (?vl' (column ?m' y)))"
  proof (intro ballI)
    fix c' x assume "c' \<in> ?C" "x \<in> set (?vl' c')"
    from cl'[OF this] show "x \<notin> insert h ?C \<and> rowRing ?m' x
      \<and> (\<forall>y \<in> set (others ?m' x). column ?m' y \<in> ?C \<and> y \<in> set (?vl' (column ?m' y)))" .
  qed
  have "dl ?m' h (remove1 c L) ?vl'"
    unfolding dl_def setL' by (intro conjI ring' v' cl'')
  with cover_eq uncover_eq show ?thesis by blast
qed

lemma dl_cong:
  assumes "\<forall>c \<in> set L. vl' c = vl c"
  shows "dl m h L vl' = dl m h L vl"
proof -
  have 1: "vlists m (set L) vl' = vlists m (set L) vl"
    using assms by (simp add: vlists_def)
  have 2: "(\<forall>c \<in> set L. \<forall>x \<in> set (vl' c). x \<notin> insert h (set L) \<and> rowRing m x
              \<and> (\<forall>y \<in> set (others m x). column m y \<in> set L \<and> y \<in> set (vl' (column m y))))
         = (\<forall>c \<in> set L. \<forall>x \<in> set (vl c). x \<notin> insert h (set L) \<and> rowRing m x
              \<and> (\<forall>y \<in> set (others m x). column m y \<in> set L \<and> y \<in> set (vl (column m y))))"
    using assms by (intro ball_cong refl) (simp, metis)
  show ?thesis unfolding dl_def 1 2 ..
qed

text \<open>The columns a row stands in.\<close>

definition rowColumns :: "Matrix \<Rightarrow> nat \<Rightarrow> nat set" where
  "rowColumns m x = set (map (column m) (x # others m x))"

text \<open>
  The rows of column \<open>c\<close> that are still linked when exactly the columns \<open>L\<close> are in the
  header list: those of the rows that have all their columns in \<open>L\<close>.
\<close>

definition liveRows :: "Matrix \<Rightarrow> (nat \<Rightarrow> nat list) \<Rightarrow> nat list \<Rightarrow> nat \<Rightarrow> nat list" where
  "liveRows m0 vl0 L c = filter (\<lambda>x. rowColumns m0 x \<subseteq> set L) (vl0 c)"

text \<open>What no \<open>cover\<close> and no \<open>uncover\<close> touches.\<close>

definition sameRows :: "nat set \<Rightarrow> Matrix \<Rightarrow> Matrix \<Rightarrow> bool" where
  "sameRows H m0 m =
     (column m = column m0 \<and> nodeRow m = nodeRow m0 \<and> nodeCol m = nodeCol m0
      \<and> nodeNum m = nodeNum m0
      \<and> (\<forall>z. z \<notin> H \<longrightarrow> right m z = right m0 z \<and> left m z = left m0 z))"

text \<open>
  The matrix \<open>m\<close> comes from the matrix \<open>m0\<close>, with the columns \<open>L0\<close> and the rows
  \<open>vl0\<close>, by covering the columns that are not in \<open>L\<close>.
\<close>

definition dlx :: "Matrix \<Rightarrow> nat \<Rightarrow> nat list \<Rightarrow> (nat \<Rightarrow> nat list) \<Rightarrow> Matrix \<Rightarrow> nat list \<Rightarrow> bool" where
  "dlx m0 h L0 vl0 m L =
     (dl m0 h L0 vl0 \<and> set L \<subseteq> set L0 \<and> sameRows (insert h (set L0)) m0 m
      \<and> dl m h L (liveRows m0 vl0 L))"

lemma dl_row:
  assumes "dl m h L vl" "c \<in> set L" "x \<in> set (vl c)"
  shows "x \<notin> insert h (set L)" "rowRing m x" "column m x = c"
    "\<forall>y \<in> set (others m x). column m y \<in> set L \<and> y \<in> set (vl (column m y))"
    "\<forall>y \<in> set (others m x). y \<notin> insert h (set L)"
proof -
  from assms show 1: "x \<notin> insert h (set L)" and 2: "rowRing m x"
    and 4: "\<forall>y \<in> set (others m x). column m y \<in> set L \<and> y \<in> set (vl (column m y))"
    unfolding dl_def by blast+
  from assms show "column m x = c" unfolding dl_def vlists_def by blast
  show "\<forall>y \<in> set (others m x). y \<notin> insert h (set L)"
  proof
    fix y assume "y \<in> set (others m x)"
    with 4 have "column m y \<in> set L" "y \<in> set (vl (column m y))" by blast+
    with assms(1) show "y \<notin> insert h (set L)" unfolding dl_def by blast
  qed
qed

lemma dl_initial:
  assumes "dlx m0 h L0 vl0 m L"
  shows "dl m0 h L0 vl0" "set L \<subseteq> set L0" "sameRows (insert h (set L0)) m0 m"
    "dl m h L (liveRows m0 vl0 L)" "column m = column m0"
  using assms by (simp_all add: dlx_def sameRows_def)

lemma dlx_refl: "dl m0 h L0 vl0 \<Longrightarrow> dlx m0 h L0 vl0 m0 L0"
proof -
  assume d: "dl m0 h L0 vl0"
  have "\<forall>c \<in> set L0. liveRows m0 vl0 L0 c = vl0 c"
  proof
    fix c assume c: "c \<in> set L0"
    have "\<forall>x \<in> set (vl0 c). rowColumns m0 x \<subseteq> set L0"
    proof
      fix x assume x: "x \<in> set (vl0 c)"
      note r = dl_row[OF d c x]
      show "rowColumns m0 x \<subseteq> set L0"
        unfolding rowColumns_def using r(3,4) c by auto
    qed
    then show "liveRows m0 vl0 L0 c = vl0 c" unfolding liveRows_def by (simp add: filter_True)
  qed
  from dl_cong[OF this] d have "dl m0 h L0 (liveRows m0 vl0 L0)" by blast
  with d show ?thesis by (simp add: dlx_def sameRows_def)
qed

text \<open>The rows of the first matrix keep their ring in every later one.\<close>

lemma dlx_others:
  assumes d: "dlx m0 h L0 vl0 m L" and c: "c \<in> set L0" and x: "x \<in> set (vl0 c)"
  shows "others m x = others m0 x" "rowRing m x" "rowColumns m x = rowColumns m0 x"
proof -
  note i = dl_initial[OF d]
  note r = dl_row[OF i(1) c x]
  have e: "\<forall>z \<in> set (x # others m0 x). right m z = right m0 z \<and> left m z = left m0 z"
    using r(1,5) i(3) unfolding sameRows_def by auto
  then show o: "others m x = others m0 x" by (intro others_eqI[OF r(2)]) blast
  from e show "rowRing m x" by (intro rowRing_eqI[OF r(2)]) (simp_all add: i(5))
  show "rowColumns m x = rowColumns m0 x" unfolding rowColumns_def o i(5) ..
qed

lemma liveRows_subset: "set (liveRows m0 vl0 L c) \<subseteq> set (vl0 c)"
  by (auto simp: liveRows_def)

lemma cover_live:
  assumes d: "dlx m0 h L0 vl0 m L" and c: "c \<in> set L"
  shows "\<exists>m'. cover c m = Some m' \<and> uncover c m' = Some m
      \<and> dlx m0 h L0 vl0 m' (remove1 c L)
      \<and> cyc (down m') (up m') c (liveRows m0 vl0 L c)"
proof -
  note i = dl_initial[OF d]
  let ?vl = "liveRows m0 vl0 L"
  from cover_dl[OF i(4) c] obtain m' where cv: "cover c m = Some m'"
    and un: "uncover c m' = Some m"
    and d': "dl m' h (remove1 c L) (\<lambda>c'. filter (\<lambda>z. z \<notin> set (removed m (?vl c))) (?vl c'))"
    and m': "m' = unlinkAll (removed m (?vl c)) (unlinkColumn c m)"
    by blast
  have ring: "cyc (right m) (left m) h L" and v: "vlists m (set L) ?vl"
    using i(4) by (simp_all add: dl_def)
  have dL: "distinct (h # L)" using ring by (simp add: cyc_def)
  have setL': "set (remove1 c L) = set L - {c}" using dL by simp
  note nb = cyc_neighbours[OF ring c]
  \<comment> \<open>what stays\<close>
  have sr: "sameRows (insert h (set L0)) m0 m'"
  proof -
    have "right m' z = right m z \<and> left m' z = left m z" if "z \<notin> insert h (set L0)" for z
    proof -
      from that i(2) have "z \<notin> insert h (set L)" by auto
      with nb show ?thesis unfolding m' by (auto simp: unlinkColumn_def)
    qed
    then show ?thesis using i(3) unfolding sameRows_def m' by simp
  qed
  \<comment> \<open>the rows that stay\<close>
  have eq: "filter (\<lambda>z. z \<notin> set (removed m (?vl c))) (?vl c') = liveRows m0 vl0 (remove1 c L) c'"
    if c': "c' \<in> set (remove1 c L)" for c'
  proof -
    from c' have c'L: "c' \<in> set L" and ne: "c' \<noteq> c" using setL' by auto
    have "(rowColumns m0 x \<subseteq> set L \<and> x \<notin> set (removed m (?vl c)))
        = (rowColumns m0 x \<subseteq> set L - {c})" if x: "x \<in> set (vl0 c')" for x
    proof (cases "rowColumns m0 x \<subseteq> set L")
      case False
      then show ?thesis by auto
    next
      case True
      with x have xl: "x \<in> set (?vl c')" by (simp add: liveRows_def)
      note r = dl_row[OF i(4) c'L xl]
      from c'L i(2) have c'0: "c' \<in> set L0" by auto
      note o = dlx_others[OF d c'0 x]
      have "x \<in> set (removed m (?vl c)) \<longleftrightarrow> c \<in> rowColumns m0 x"
      proof
        assume "x \<in> set (removed m (?vl c))"
        then obtain z where z: "z \<in> set (?vl c)" "x \<in> set (others m z)"
          unfolding removed_def by auto
        note rz = dl_row[OF i(4) c z(1)]
        have "set (x # others m x) = set (z # others m z)"
          by (rule rowRing_ring(2)[OF rz(2) z(2)])
        then have "z \<in> set (x # others m x)" by simp
        then have "column m z \<in> rowColumns m x" unfolding rowColumns_def by auto
        then show "c \<in> rowColumns m0 x" using rz(3) o(3) by simp
      next
        assume "c \<in> rowColumns m0 x"
        then have "c \<in> rowColumns m x" using o(3) by simp
        then obtain y where y: "y \<in> set (x # others m x)" "column m y = c"
          unfolding rowColumns_def by auto
        from y r(3) ne have yo: "y \<in> set (others m x)" by auto
        with r(4) y(2) have yl: "y \<in> set (?vl c)" by auto
        have "set (y # others m y) = set (x # others m x)"
          by (rule rowRing_ring(2)[OF r(2) yo])
        then have "x \<in> set (y # others m y)" by simp
        moreover have "x \<noteq> y" using y(2) r(3) ne by auto
        ultimately have "x \<in> set (others m y)" by simp
        with yl show "x \<in> set (removed m (?vl c))" unfolding removed_def by auto
      qed
      with True show ?thesis by auto
    qed
    then show ?thesis
      unfolding liveRows_def filter_filter setL' by (intro filter_cong refl) simp
  qed
  have "\<forall>c' \<in> set (remove1 c L). liveRows m0 vl0 (remove1 c L) c'
      = filter (\<lambda>z. z \<notin> set (removed m (?vl c))) (?vl c')"
    using eq by simp
  from dl_cong[OF this] d'
  have d'': "dl m' h (remove1 c L) (liveRows m0 vl0 (remove1 c L))" by blast
  \<comment> \<open>the list of the column itself\<close>
  have vc: "cyc (down m) (up m) c (?vl c)" using v c by (simp add: vlists_def)
  have cm: "column m c = c" using v c by (simp add: vlists_def)
  have fr: "down m' z = down m z \<and> up m' z = up m z" if z: "column m z = c" for z
  proof -
    let ?m2 = "unlinkColumn c m"
    let ?ys = "removed m (?vl c)"
    have v2: "vlists ?m2 (set L - {c}) ?vl"
      using vlists_mono[OF v, of "set L - {c}"] by (simp add: vlists_cong[of ?m2 m])
    have el: "\<forall>y \<in> set ?ys. column ?m2 y \<in> set L - {c} \<and> y \<in> set (?vl (column ?m2 y))"
    proof
      fix y assume "y \<in> set ?ys"
      then obtain x where x: "x \<in> set (?vl c)" and y: "y \<in> set (others m x)"
        by (auto simp: removed_def)
      note r = dl_row[OF i(4) c x]
      from r(4) y have "column m y \<in> set L" "y \<in> set (?vl (column m y))" by auto
      moreover have "column m y \<noteq> c"
        using rowRing_ring(3)[OF r(2) y] r(3) by simp
      ultimately show "column ?m2 y \<in> set L - {c} \<and> y \<in> set (?vl (column ?m2 y))" by simp
    qed
    have dys: "distinct ?ys"
    proof (rule distinct_removed)
      show "distinct (?vl c)" using vc by (simp add: cyc_def)
      show "\<forall>x \<in> set (?vl c). rowRing m x \<and> column m x = c"
        using dl_row(2,3)[OF i(4) c] by blast
    qed
    have zc: "column ?m2 z \<notin> set L - {c}" using z by simp
    show ?thesis
      unfolding m' using unlinkAll_frame[OF v2 dys el zc] by simp
  qed
  have "cyc (down m') (up m') c (?vl c) = cyc (down m) (up m) c (?vl c)"
  proof (rule cyc_frame)
    show "\<forall>z\<in>insert c (set (?vl c)). down m' z = down m z \<and> up m' z = up m z"
      using fr cm dl_row(3)[OF i(4) c] by auto
  qed
  with vc have vc': "cyc (down m') (up m') c (?vl c)" by simp
  have "dlx m0 h L0 vl0 m' (remove1 c L)"
    unfolding dlx_def using i(1,2) sr d'' setL' by auto
  with cv un vc' show ?thesis by blast
qed

lemma remove1_filter: "distinct L \<Longrightarrow> remove1 c L = filter (\<lambda>z. z \<noteq> c) L"
  by (simp add: distinct_remove1_removeAll removeAll_filter_not_eq) (metis)

lemma dlx_distinct:
  assumes "dlx m0 h L0 vl0 m L"
  shows "distinct L" "h \<notin> set L"
  using dl_initial(4)[OF assms] by (simp_all add: dl_def cyc_def)

lemma dlx_row_links:
  assumes d: "dlx m0 h L0 vl0 m L" and c: "c \<in> set L0" and x: "x \<in> set (vl0 c)"
    and z: "z \<in> set (x # others m0 x)"
  shows "right m z = right m0 z" "left m z = left m0 z" "column m z = column m0 z"
proof -
  note i = dl_initial[OF d]
  note r = dl_row[OF i(1) c x]
  from z r(1,5) have "z \<notin> insert h (set L0)" by auto
  with i(3) show "right m z = right m0 z" "left m z = left m0 z"
    unfolding sameRows_def by blast+
  show "column m z = column m0 z" by (simp add: i(5))
qed

text \<open>
  The loop that covers the columns of the other three nodes of a row, and the loop that
  uncovers them from the last to the first.
\<close>

lemma coverOthers_live:
  assumes d: "dlx m0 h L0 vl0 m L" and c: "c \<in> set L0" and x: "x \<in> set (vl0 c)"
    and sub: "column m0 ` set (others m0 x) \<subseteq> set L"
  shows "\<exists>m'. coverOthers x (right m x) m = Some m' \<and> uncoverOthers x (left m' x) m' = Some m
      \<and> dlx m0 h L0 vl0 m' (filter (\<lambda>z. z \<notin> column m0 ` set (others m0 x)) L)"
proof -
  note i = dl_initial[OF d]
  note r = dl_row[OF i(1) c x]
  let ?y1 = "right m0 x" let ?y2 = "right m0 ?y1" let ?y3 = "right m0 ?y2"
  let ?c1 = "column m0 ?y1" let ?c2 = "column m0 ?y2" let ?c3 = "column m0 ?y3"
  have o: "others m0 x = [?y1, ?y2, ?y3]" by (simp add: others_def)
  from r(2) have ring: "right m0 ?y3 = x" "left m0 x = ?y3" "left m0 ?y3 = ?y2"
    "left m0 ?y2 = ?y1" "left m0 ?y1 = x"
    and dc: "distinct [column m0 x, ?c1, ?c2, ?c3]"
    by (simp_all add: rowRing_def Let_def)
  from rowRing_distinct[OF r(2)] have ne: "?y1 \<noteq> x" "?y2 \<noteq> x" "?y3 \<noteq> x"
    by (auto simp: o)
  have mem: "x \<in> set (x # others m0 x)" "?y1 \<in> set (x # others m0 x)"
    "?y2 \<in> set (x # others m0 x)" "?y3 \<in> set (x # others m0 x)"
    by (simp_all add: o)
  from sub have cL: "?c1 \<in> set L" "?c2 \<in> set L" "?c3 \<in> set L" by (simp_all add: o)
  note dis = dlx_distinct[OF d]
  \<comment> \<open>first column\<close>
  from cover_live[OF d cL(1)] obtain m1 where c1: "cover ?c1 m = Some m1"
    and u1: "uncover ?c1 m1 = Some m" and d1: "dlx m0 h L0 vl0 m1 (remove1 ?c1 L)"
    by blast
  have c2L: "?c2 \<in> set (remove1 ?c1 L)" using cL(2) dc dis(1) by simp
  from cover_live[OF d1 c2L] obtain m2 where c2: "cover ?c2 m1 = Some m2"
    and u2: "uncover ?c2 m2 = Some m1"
    and d2: "dlx m0 h L0 vl0 m2 (remove1 ?c2 (remove1 ?c1 L))"
    by blast
  have c3L: "?c3 \<in> set (remove1 ?c2 (remove1 ?c1 L))" using cL(3) dc dis(1) by simp
  from cover_live[OF d2 c3L] obtain m3 where c3: "cover ?c3 m2 = Some m3"
    and u3: "uncover ?c3 m3 = Some m2"
    and d3: "dlx m0 h L0 vl0 m3 (remove1 ?c3 (remove1 ?c2 (remove1 ?c1 L)))"
    by blast
  note l0 = dlx_row_links[OF d c x] and l1 = dlx_row_links[OF d1 c x]
    and l2 = dlx_row_links[OF d2 c x] and l3 = dlx_row_links[OF d3 c x]
  have "coverOthers x (right m x) m = coverOthers x ?y1 m"
    by (simp add: l0(1)[OF mem(1)])
  also have "\<dots> = coverOthers x ?y2 m1"
    using ne(1) c1 by (subst coverOthers.simps) (simp add: l0(3)[OF mem(2)] l1(1)[OF mem(2)])
  also have "\<dots> = coverOthers x ?y3 m2"
    using ne(2) c2 by (subst coverOthers.simps) (simp add: l1(3)[OF mem(3)] l2(1)[OF mem(3)])
  also have "\<dots> = coverOthers x x m3"
    using ne(3) c3 ring(1)
    by (subst coverOthers.simps) (simp add: l2(3)[OF mem(4)] l3(1)[OF mem(4)])
  also have "\<dots> = Some m3" by (subst coverOthers.simps) simp
  finally have cov: "coverOthers x (right m x) m = Some m3" .
  have "uncoverOthers x (left m3 x) m3 = uncoverOthers x ?y3 m3"
    by (simp add: l3(2)[OF mem(1)] ring)
  also have "\<dots> = uncoverOthers x ?y2 m2"
    using ne(3) u3 ring
    by (subst uncoverOthers.simps) (simp add: l3(3)[OF mem(4)] l2(2)[OF mem(4)])
  also have "\<dots> = uncoverOthers x ?y1 m1"
    using ne(2) u2 ring
    by (subst uncoverOthers.simps) (simp add: l2(3)[OF mem(3)] l1(2)[OF mem(3)])
  also have "\<dots> = uncoverOthers x x m"
    using ne(1) u1 ring
    by (subst uncoverOthers.simps) (simp add: l1(3)[OF mem(2)] l0(2)[OF mem(2)])
  also have "\<dots> = Some m" by (subst uncoverOthers.simps) simp
  finally have unc: "uncoverOthers x (left m3 x) m3 = Some m" .
  have "remove1 ?c3 (remove1 ?c2 (remove1 ?c1 L))
      = filter (\<lambda>z. z \<notin> column m0 ` set (others m0 x)) L"
    using dis(1) by (simp add: remove1_filter o)
  with d3 cov unc show ?thesis by auto
qed

text \<open>The choice of the column: one of the list, of the least size unless a size 1 stopped the loop.\<close>

lemma chooseColumn_for_spec:
  assumes "chain (right m) (left m) a xs h" "h \<notin> set xs"
  shows "\<exists>c sz. chooseColumn_for h (hd (xs @ [h])) mc ms m = Some (c, sz)
      \<and> ((c, sz) = (mc, ms) \<or> c \<in> set xs \<and> sz = colSize m c)
      \<and> sz \<le> ms \<and> (\<forall>c' \<in> set xs. sz \<le> colSize m c' \<or> sz = 1)"
  using assms
proof (induction xs arbitrary: a mc ms)
  case Nil
  show ?case by (subst chooseColumn_for.simps) simp
next
  case (Cons x xs)
  from Cons.prems have xh: "x \<noteq> h" and nx: "right m x = hd (xs @ [h])"
    and ch: "chain (right m) (left m) x xs h" and h: "h \<notin> set xs"
    by (cases xs; auto)+
  show ?case
  proof (cases "colSize m x < ms")
    case True
    show ?thesis
    proof (cases "colSize m x = 1")
      case one: True
      have "chooseColumn_for h x mc ms m = Some (x, colSize m x)"
        using xh True one by (subst chooseColumn_for.simps) simp
      then show ?thesis using True one by simp
    next
      case False
      from Cons.IH[OF ch h, of x "colSize m x"] obtain c sz where
        r: "chooseColumn_for h (hd (xs @ [h])) x (colSize m x) m = Some (c, sz)"
        "(c, sz) = (x, colSize m x) \<or> c \<in> set xs \<and> sz = colSize m c"
        "sz \<le> colSize m x" "\<forall>c' \<in> set xs. sz \<le> colSize m c' \<or> sz = 1"
        by blast
      have "chooseColumn_for h x mc ms m = Some (c, sz)"
        using xh True False r(1) nx by (subst chooseColumn_for.simps) simp
      moreover have "c \<in> set (x # xs) \<and> sz = colSize m c" using r(2) by auto
      moreover have "sz \<le> ms" using r(3) True by simp
      moreover have "\<forall>c' \<in> set (x # xs). sz \<le> colSize m c' \<or> sz = 1" using r(3,4) by simp
      ultimately show ?thesis by simp
    qed
  next
    case False
    from Cons.IH[OF ch h, of mc ms] obtain c sz where
      r: "chooseColumn_for h (hd (xs @ [h])) mc ms m = Some (c, sz)"
      "(c, sz) = (mc, ms) \<or> c \<in> set xs \<and> sz = colSize m c"
      "sz \<le> ms" "\<forall>c' \<in> set xs. sz \<le> colSize m c' \<or> sz = 1"
      by blast
    have "chooseColumn_for h x mc ms m = Some (c, sz)"
      using xh False r(1) nx by (subst chooseColumn_for.simps) simp
    moreover have "(c, sz) = (mc, ms) \<or> c \<in> set (x # xs) \<and> sz = colSize m c"
      using r(2) by auto
    moreover have "\<forall>c' \<in> set (x # xs). sz \<le> colSize m c' \<or> sz = 1" using r(3,4) False by auto
    ultimately show ?thesis using r(3) by simp
  qed
qed

lemma chooseColumn_spec:
  assumes "cyc (right m) (left m) h L" "L \<noteq> []"
  shows "\<exists>c. chooseColumn h m = Some (c, colSize m c) \<and> c \<in> set L
      \<and> (\<forall>c' \<in> set L. colSize m c \<le> colSize m c' \<or> colSize m c = 1)"
proof -
  from assms(2) obtain c1 rest where L: "L = c1 # rest" by (cases L) auto
  from assms(1) have r: "right m h = c1" and ch: "chain (right m) (left m) c1 rest h"
    and h: "h \<notin> set rest"
    by (simp_all add: L cyc_def)
  have nx: "right m c1 = hd (rest @ [h])" using ch by (cases rest) auto
  from chooseColumn_for_spec[OF ch h, of c1 "colSize m c1"] obtain c sz where
    s: "chooseColumn_for h (hd (rest @ [h])) c1 (colSize m c1) m = Some (c, sz)"
    "(c, sz) = (c1, colSize m c1) \<or> c \<in> set rest \<and> sz = colSize m c"
    "sz \<le> colSize m c1" "\<forall>c' \<in> set rest. sz \<le> colSize m c' \<or> sz = 1"
    by blast
  from s(2) have sz: "sz = colSize m c" and cL: "c \<in> set L" by (auto simp: L)
  have "chooseColumn h m = Some (c, colSize m c)"
    unfolding chooseColumn_def Let_def r nx using s(1) sz by simp
  moreover have "\<forall>c' \<in> set L. colSize m c \<le> colSize m c' \<or> colSize m c = 1"
    using s(3,4) sz by (simp add: L)
  ultimately show ?thesis using cL by blast
qed

lemma dlx_header:
  assumes "dlx m0 h L0 vl0 m L"
  shows "right m h = h \<longleftrightarrow> L = []"
proof -
  from dl_initial(4)[OF assms] have c: "cyc (right m) (left m) h L" by (simp add: dl_def)
  from cyc_head(1)[OF c] have "right m h = hd (L @ [h])" .
  moreover from c have "h \<notin> set L" by (simp add: cyc_def)
  ultimately show ?thesis by (cases L) auto
qed

lemma dlx_colSize:
  assumes "dlx m0 h L0 vl0 m L" "c \<in> set L"
  shows "colSize m c = int (length (liveRows m0 vl0 L c))"
  using dl_initial(4)[OF assms(1)] assms(2) by (simp add: dl_def vlists_def)

lemma recordStep_fields [simp]:
  "nodes (recordStep rw s) = nodes s" "header (recordStep rw s) = header s"
  by (simp_all add: recordStep_def Let_def)

lemma backtrackStep_fields [simp]:
  "nodes (backtrackStep rw s) = nodes s" "header (backtrackStep rw s) = header s"
  by (simp_all add: backtrackStep_def Let_def)

text \<open>The rounds of the loop of \<open>searchDLX\<close>, one equation for each way through the body.\<close>

definition skipsRow :: "Solver \<Rightarrow> nat \<Rightarrow> bool" where
  "skipsRow s rw =
     (cell (board s) (nodeRow (nodes s) rw) (nodeCol (nodes s) rw) \<noteq> 0
      \<and> cell (board s) (nodeRow (nodes s) rw) (nodeCol (nodes s) rw) \<noteq> nodeNum (nodes s) rw)"

definition chosenRow :: "nat \<Rightarrow> Matrix \<Rightarrow> Solver \<Rightarrow> Solver" where
  "chosenRow rw m2 s =
     recordStep rw (s\<lparr>currentTestedValues := currentTestedValues s @ [nodeNum (nodes s) rw],
                       nodes := m2\<rparr>)"

lemma searchDLX_rows_end:
  "uncover c (nodes s) = Some m \<Longrightarrow>
   searchDLX_rows (Suc k) c c s = Some (False, s\<lparr>nodes := m\<rparr>)"
  by simp

lemma searchDLX_rows_skip:
  "rw \<noteq> c \<Longrightarrow> skipsRow s rw \<Longrightarrow>
   searchDLX_rows (Suc k) c rw s = searchDLX_rows k c (down (nodes s) rw) s"
  by (simp add: skipsRow_def Let_def)

lemma searchDLX_rows_found:
  "rw \<noteq> c \<Longrightarrow> \<not> skipsRow s rw \<Longrightarrow>
   coverOthers rw (right (nodes s) rw) (nodes s) = Some m2 \<Longrightarrow>
   searchDLX k (chosenRow rw m2 s) = Some (True, s5) \<Longrightarrow>
   searchDLX_rows (Suc k) c rw s = Some (True, s5)"
  unfolding skipsRow_def chosenRow_def by (auto simp: Let_def)

lemma searchDLX_rows_back:
  "rw \<noteq> c \<Longrightarrow> \<not> skipsRow s rw \<Longrightarrow>
   coverOthers rw (right (nodes s) rw) (nodes s) = Some m2 \<Longrightarrow>
   searchDLX k (chosenRow rw m2 s) = Some (False, s5) \<Longrightarrow>
   uncoverOthers rw (left (nodes (backtrackStep rw s5)) rw) (nodes (backtrackStep rw s5)) = Some m7 \<Longrightarrow>
   searchDLX_rows (Suc k) c rw s
     = searchDLX_rows k c (down m7 rw) ((backtrackStep rw s5)\<lparr>nodes := m7\<rparr>)"
  unfolding skipsRow_def chosenRow_def by (auto simp: Let_def)

lemma searchDLX_found: "right (nodes s) (header s) = header s \<Longrightarrow> searchDLX (Suc k) s = Some (True, s)"
  by simp

lemma searchDLX_dead:
  "right (nodes s) (header s) \<noteq> header s \<Longrightarrow> chooseColumn (header s) (nodes s) = Some (c, 0) \<Longrightarrow>
   searchDLX (Suc k) s = Some (False, s)"
  by simp

lemma searchDLX_rows_start:
  "right (nodes s) (header s) \<noteq> header s \<Longrightarrow> chooseColumn (header s) (nodes s) = Some (c, sz) \<Longrightarrow>
   sz \<noteq> 0 \<Longrightarrow> cover c (nodes s) = Some m1 \<Longrightarrow>
   searchDLX (Suc k) s
     = searchDLX_rows k c (down m1 c) (s\<lparr>nodes := m1, currentTestedValues := []\<rparr>)"
  by simp

lemma chosenRow_fields [simp]:
  "nodes (chosenRow rw m2 s) = m2" "header (chosenRow rw m2 s) = header s"
  by (simp_all add: chosenRow_def)

text \<open>
  A bound that lets \<open>searchDLX\<close> finish when \<open>n\<close> columns are in the header list and no
  column has more than \<open>N\<close> rows.
\<close>

definition fuelDLX :: "nat \<Rightarrow> nat \<Rightarrow> nat" where
  "fuelDLX N n = 1 + n * (N + 2)"

lemma fuelDLX_mono: "n \<le> n' \<Longrightarrow> fuelDLX N n \<le> fuelDLX N n'"
  unfolding fuelDLX_def by (intro add_left_mono mult_right_mono) simp_all

lemma fuelDLX_Suc: "fuelDLX N (Suc n) = fuelDLX N n + N + 2"
  by (simp add: fuelDLX_def)

text \<open>The rows of the loop of \<open>searchDLX\<close>, when the column \<open>c\<close> has just been covered.\<close>

definition rowsToTry ::
    "Matrix \<Rightarrow> (nat \<Rightarrow> nat list) \<Rightarrow> Matrix \<Rightarrow> nat list \<Rightarrow> nat \<Rightarrow> nat list \<Rightarrow> nat \<Rightarrow> bool" where
  "rowsToTry m0 vl0 m1 L1 c rs rw =
     ((\<forall>x \<in> set rs. x \<in> set (vl0 c) \<and> column m0 ` set (others m0 x) \<subseteq> set L1)
      \<and> (\<exists>a. chain (down m1) (up m1) a rs c) \<and> c \<notin> set rs \<and> rw = hd (rs @ [c]))"

lemma rowsToTry_Cons:
  assumes "rowsToTry m0 vl0 m1 L1 c (x # rs) rw"
  shows "rw = x" "x \<noteq> c" "x \<in> set (vl0 c)" "column m0 ` set (others m0 x) \<subseteq> set L1"
    "rowsToTry m0 vl0 m1 L1 c rs (down m1 x)"
proof -
  from assms show "rw = x" "x \<noteq> c" "x \<in> set (vl0 c)"
    "column m0 ` set (others m0 x) \<subseteq> set L1"
    by (auto simp: rowsToTry_def)
  from assms obtain a where "chain (down m1) (up m1) a (x # rs) c" by (auto simp: rowsToTry_def)
  then have ch: "chain (down m1) (up m1) x rs c" by simp
  then have "down m1 x = hd (rs @ [c])" by (cases rs) auto
  with ch assms show "rowsToTry m0 vl0 m1 L1 c rs (down m1 x)"
    by (auto simp: rowsToTry_def)
qed

lemma rowsToTry_start:
  assumes d: "dlx m0 h L0 vl0 m L" and c: "c \<in> set L"
    and cy: "cyc (down m1) (up m1) c (liveRows m0 vl0 L c)"
  shows "rowsToTry m0 vl0 m1 (remove1 c L) c (liveRows m0 vl0 L c) (down m1 c)"
proof -
  note i = dl_initial[OF d]
  from c i(2) have c0: "c \<in> set L0" by auto
  have dL: "distinct L" by (rule dlx_distinct(1)[OF d])
  have "x \<in> set (vl0 c) \<and> column m0 ` set (others m0 x) \<subseteq> set (remove1 c L)"
    if x: "x \<in> set (liveRows m0 vl0 L c)" for x
  proof -
    from x have x0: "x \<in> set (vl0 c)" and sub: "rowColumns m0 x \<subseteq> set L"
      by (simp_all add: liveRows_def)
    note r = dl_row[OF i(1) c0 x0]
    have "column m0 y \<noteq> c" if "y \<in> set (others m0 x)" for y
      using rowRing_ring(3)[OF r(2) that] r(3) by simp
    then show ?thesis using x0 sub dL unfolding rowColumns_def by auto
  qed
  moreover have "chain (down m1) (up m1) c (liveRows m0 vl0 L c) c" "c \<notin> set (liveRows m0 vl0 L c)"
    using cy by (simp_all add: cyc_def)
  moreover have "down m1 c = hd (liveRows m0 vl0 L c @ [c])" by (rule cyc_head(1)[OF cy])
  ultimately show ?thesis unfolding rowsToTry_def by blast
qed

text \<open>
  The search returns, whatever the board holds, and a search that fails leaves the matrix
  as it found it.
\<close>

lemma searchDLX_returns_aux:
  assumes N: "\<forall>c \<in> set L0. length (vl0 c) \<le> N"
  shows "(\<forall>s L. dlx m0 (header s) L0 vl0 (nodes s) L \<longrightarrow> fuelDLX N (length L) \<le> k \<longrightarrow>
            (\<exists>ok s'. searchDLX k s = Some (ok, s') \<and> header s' = header s
                \<and> (\<not> ok \<longrightarrow> nodes s' = nodes s)))
       \<and> (\<forall>s L1 c rs rw m. dlx m0 (header s) L0 vl0 (nodes s) L1 \<longrightarrow> c \<in> set L0 \<longrightarrow>
            rowsToTry m0 vl0 (nodes s) L1 c rs rw \<longrightarrow> uncover c (nodes s) = Some m \<longrightarrow>
            length rs + 1 + fuelDLX N (length L1) \<le> k \<longrightarrow>
            (\<exists>ok s'. searchDLX_rows k c rw s = Some (ok, s') \<and> header s' = header s
                \<and> (\<not> ok \<longrightarrow> nodes s' = m)))"
proof (induction k)
  case 0
  show ?case by (simp add: fuelDLX_def)
next
  case (Suc k)
  note IH1 = Suc.IH[THEN conjunct1, rule_format]
  note IH2 = Suc.IH[THEN conjunct2, rule_format]
  have P: "\<exists>ok s'. searchDLX (Suc k) s = Some (ok, s') \<and> header s' = header s
                \<and> (\<not> ok \<longrightarrow> nodes s' = nodes s)"
    if d: "dlx m0 (header s) L0 vl0 (nodes s) L" and fuel: "fuelDLX N (length L) \<le> Suc k"
    for s L
  proof (cases "L = []")
    case True
    then have "right (nodes s) (header s) = header s" using dlx_header[OF d] by simp
    then have "searchDLX (Suc k) s = Some (True, s)" by simp
    then show ?thesis by blast
  next
    case False
    then have nh: "right (nodes s) (header s) \<noteq> header s" using dlx_header[OF d] by simp
    note i = dl_initial[OF d]
    from i(4) have ring: "cyc (right (nodes s)) (left (nodes s)) (header s) L"
      by (simp add: dl_def)
    from chooseColumn_spec[OF ring False] obtain c where
      ch: "chooseColumn (header s) (nodes s) = Some (c, colSize (nodes s) c)" and c: "c \<in> set L"
      by blast
    show ?thesis
    proof (cases "colSize (nodes s) c = 0")
      case True
      then have "searchDLX (Suc k) s = Some (False, s)" using nh ch by simp
      then show ?thesis by blast
    next
      case nz: False
      from cover_live[OF d c] obtain m1 where cv: "cover c (nodes s) = Some m1"
        and un: "uncover c m1 = Some (nodes s)"
        and d1: "dlx m0 (header s) L0 vl0 m1 (remove1 c L)"
        and cy: "cyc (down m1) (up m1) c (liveRows m0 vl0 L c)"
        by blast
      let ?s1 = "s\<lparr>nodes := m1, currentTestedValues := []\<rparr>"
      let ?rs = "liveRows m0 vl0 L c"
      from c i(2) have c0: "c \<in> set L0" by auto
      have len: "length ?rs \<le> N"
        using N c0 length_filter_le[of _ "vl0 c"] unfolding liveRows_def
        by (meson le_trans)
      have lenL: "length (remove1 c L) = length L - 1" using c by (simp add: length_remove1)
      from c have "length L = Suc (length L - 1)" by (cases L) auto
      then have "fuelDLX N (length L) = fuelDLX N (length L - 1) + N + 2"
        using fuelDLX_Suc[of N "length L - 1"] by simp
      with fuel len lenL have fuel': "length ?rs + 1 + fuelDLX N (length (remove1 c L)) \<le> k"
        by simp
      have "\<exists>ok s'. searchDLX_rows k c (down m1 c) ?s1 = Some (ok, s') \<and> header s' = header ?s1
                \<and> (\<not> ok \<longrightarrow> nodes s' = nodes s)"
      proof (rule IH2[of ?s1 "remove1 c L" c ?rs "down m1 c" "nodes s"])
        show "dlx m0 (header ?s1) L0 vl0 (nodes ?s1) (remove1 c L)" using d1 by simp
        show "c \<in> set L0" by (rule c0)
        show "rowsToTry m0 vl0 (nodes ?s1) (remove1 c L) c ?rs (down m1 c)"
          using rowsToTry_start[OF d c cy] by simp
        show "uncover c (nodes ?s1) = Some (nodes s)" using un by simp
        show "length ?rs + 1 + fuelDLX N (length (remove1 c L)) \<le> k" by (rule fuel')
      qed
      then obtain ok s' where r: "searchDLX_rows k c (down m1 c) ?s1 = Some (ok, s')"
        "header s' = header s" "\<not> ok \<longrightarrow> nodes s' = nodes s"
        by auto
      have "searchDLX (Suc k) s = Some (ok, s')"
        unfolding searchDLX_rows_start[OF nh ch nz cv] by (rule r(1))
      with r(2,3) show ?thesis by blast
    qed
  qed
  have Q: "\<exists>ok s'. searchDLX_rows (Suc k) c rw s = Some (ok, s') \<and> header s' = header s
                \<and> (\<not> ok \<longrightarrow> nodes s' = m)"
    if d: "dlx m0 (header s) L0 vl0 (nodes s) L1" and c0: "c \<in> set L0"
      and rt: "rowsToTry m0 vl0 (nodes s) L1 c rs rw" and un: "uncover c (nodes s) = Some m"
      and fuel: "length rs + 1 + fuelDLX N (length L1) \<le> Suc k"
    for s L1 c rs rw m
  proof (cases rs)
    case Nil
    with rt have "rw = c" by (simp add: rowsToTry_def)
    then have "searchDLX_rows (Suc k) c rw s = Some (False, s\<lparr>nodes := m\<rparr>)" using un by simp
    then show ?thesis by force
  next
    case (Cons x rs')
    note r = rowsToTry_Cons[OF rt[unfolded Cons]]
    let ?m1 = "nodes s"
    from fuel Cons have fuel': "length rs' + 1 + fuelDLX N (length L1) \<le> k" by simp
    show ?thesis
    proof (cases "skipsRow s x")
      case True
      from IH2[OF d c0 r(5) un fuel'] obtain ok s' where
        n: "searchDLX_rows k c (down ?m1 x) s = Some (ok, s')" "header s' = header s"
        "\<not> ok \<longrightarrow> nodes s' = m"
        by blast
      have "searchDLX_rows (Suc k) c rw s = Some (ok, s')"
        unfolding r(1) searchDLX_rows_skip[OF r(2) True] by (rule n(1))
      with n(2,3) show ?thesis by blast
    next
      case False
      from coverOthers_live[OF d c0 r(3,4)] obtain m2 where
        co: "coverOthers x (right ?m1 x) ?m1 = Some m2"
        and uo: "uncoverOthers x (left m2 x) m2 = Some ?m1"
        and d2: "dlx m0 (header s) L0 vl0 m2
                  (filter (\<lambda>z. z \<notin> column m0 ` set (others m0 x)) L1)"
        by blast
      let ?L2 = "filter (\<lambda>z. z \<notin> column m0 ` set (others m0 x)) L1"
      let ?s2 = "chosenRow x m2 s"
      have "fuelDLX N (length ?L2) \<le> fuelDLX N (length L1)"
        by (rule fuelDLX_mono) simp
      with fuel have fuel2: "fuelDLX N (length ?L2) \<le> k" by simp
      have "\<exists>ok s'. searchDLX k ?s2 = Some (ok, s') \<and> header s' = header ?s2
                \<and> (\<not> ok \<longrightarrow> nodes s' = nodes ?s2)"
        by (rule IH1[of ?s2 ?L2]) (use d2 fuel2 in simp_all)
      then obtain ok s5 where n: "searchDLX k ?s2 = Some (ok, s5)" "header s5 = header s"
        "\<not> ok \<longrightarrow> nodes s5 = m2"
        by auto
      show ?thesis
      proof (cases ok)
        case True
        have "searchDLX_rows (Suc k) c rw s = Some (True, s5)"
          unfolding r(1) by (rule searchDLX_rows_found[OF r(2) False co]) (use n(1) True in simp)
        with n(2) show ?thesis by blast
      next
        case nok: False
        let ?s6 = "backtrackStep x s5"
        let ?s7 = "?s6\<lparr>nodes := ?m1\<rparr>"
        from n(3) nok have n5: "nodes s5 = m2" by simp
        have "\<exists>ok s'. searchDLX_rows k c (down ?m1 x) ?s7 = Some (ok, s') \<and> header s' = header ?s7
                \<and> (\<not> ok \<longrightarrow> nodes s' = m)"
        proof (rule IH2[of ?s7 L1 c rs' "down ?m1 x" m])
          show "dlx m0 (header ?s7) L0 vl0 (nodes ?s7) L1" using d n(2) by simp
          show "c \<in> set L0" by (rule c0)
          show "rowsToTry m0 vl0 (nodes ?s7) L1 c rs' (down ?m1 x)" using r(5) by simp
          show "uncover c (nodes ?s7) = Some m" using un by simp
          show "length rs' + 1 + fuelDLX N (length L1) \<le> k" by (rule fuel')
        qed
        then obtain ok' s' where
          n': "searchDLX_rows k c (down ?m1 x) ?s7 = Some (ok', s')" "header s' = header s"
          "\<not> ok' \<longrightarrow> nodes s' = m"
          using n(2) by auto
        have uo': "uncoverOthers x (left (nodes ?s6) x) (nodes ?s6) = Some ?m1"
          using uo n5 by simp
        have "searchDLX k ?s2 = Some (False, s5)" using n(1) nok by simp
        from searchDLX_rows_back[OF r(2) False co this uo']
        have "searchDLX_rows (Suc k) c rw s = Some (ok', s')"
          unfolding r(1) using n'(1) by simp
        with n'(2,3) show ?thesis by blast
      qed
    qed
  qed
  show ?case using P Q by blast
qed

section \<open>The matrix that createMatrix builds\<close>

lemma chain_last: "chain nxt prv a xs b \<Longrightarrow> prv b = last (a # xs)"
  by (induction xs arbitrary: a) auto

lemma chain_snoc_new:
  assumes "chain nxt prv a xs c" "distinct (a # xs)" "n \<notin> set (a # xs)" "c \<notin> set xs" "n \<noteq> c"
  shows "chain (nxt(n := c, prv c := n)) (prv(n := prv c, c := n)) a xs n"
  using assms
proof (induction xs arbitrary: a)
  case Nil
  then show ?case by auto
next
  case (Cons x xs)
  from Cons.prems have a: "nxt a = x" "prv x = a" and ch: "chain nxt prv x xs c" by simp_all
  have IH: "chain (nxt(n := c, prv c := n)) (prv(n := prv c, c := n)) x xs n"
    by (rule Cons.IH[OF ch]) (use Cons.prems in auto)
  have "prv c = last (x # xs)" by (rule chain_last[OF ch])
  moreover have "last (x # xs) \<in> set (x # xs)" by (rule last_in_set) simp
  ultimately have "prv c \<in> set (x # xs)" by simp
  with Cons.prems have ne: "a \<noteq> prv c" "a \<noteq> n" "x \<noteq> n" "x \<noteq> c" by auto
  have "(nxt(n := c, prv c := n)) a = x" using ne a by simp
  moreover have "(prv(n := prv c, c := n)) x = a" using ne a by simp
  ultimately show ?case using IH by (simp only: chain.simps)
qed

lemma cyc_snoc:
  assumes "cyc nxt prv c xs" "n \<notin> set (c # xs)"
  shows "cyc (nxt(n := c, prv c := n)) (prv(n := prv c, c := n)) c (xs @ [n])"
proof -
  from assms have ch: "chain nxt prv c xs c" and d: "distinct (c # xs)" by (simp_all add: cyc_def)
  from assms(2) have nc: "n \<noteq> c" by simp
  have 1: "chain (nxt(n := c, prv c := n)) (prv(n := prv c, c := n)) c xs n"
    by (rule chain_snoc_new[OF ch d assms(2)]) (use d nc in auto)
  have "prv c = last (c # xs)" by (rule cyc_head(2)[OF assms(1)])
  moreover have "last (c # xs) \<in> set (c # xs)" by (rule last_in_set) simp
  ultimately have "prv c \<in> set (c # xs)" by simp
  with assms(2) have np: "n \<noteq> prv c" by auto
  have "(nxt(n := c, prv c := n)) n = c" using np by simp
  moreover have "(prv(n := prv c, c := n)) c = n" by simp
  ultimately have "chain (nxt(n := c, prv c := n)) (prv(n := prv c, c := n)) c (xs @ [n]) c"
    using 1 by (simp only: chain_snoc)
  moreover have "distinct (c # xs @ [n])" using d assms(2) by auto
  ultimately show ?thesis by (simp only: cyc_def)
qed

lemma addNode_fields:
  assumes "colm \<noteq> nextId m"
  shows "fst (addNode colm r c num m) = nextId m"
    "left (snd (addNode colm r c num m)) = (left m)(nextId m := nextId m)"
    "right (snd (addNode colm r c num m)) = (right m)(nextId m := nextId m)"
    "up (snd (addNode colm r c num m)) = (up m)(nextId m := up m colm, colm := nextId m)"
    "down (snd (addNode colm r c num m)) = (down m)(nextId m := colm, up m colm := nextId m)"
    "column (snd (addNode colm r c num m)) = (column m)(nextId m := colm)"
    "colSize (snd (addNode colm r c num m)) = (colSize m)(colm := colSize m colm + 1)"
    "nodeRow (snd (addNode colm r c num m)) = (nodeRow m)(nextId m := r)"
    "nodeCol (snd (addNode colm r c num m)) = (nodeCol m)(nextId m := c)"
    "nodeNum (snd (addNode colm r c num m)) = (nodeNum m)(nextId m := num)"
    "nextId (snd (addNode colm r c num m)) = Suc (nextId m)"
  using assms by (simp_all add: addNode_def newDLXNode_def Let_def)

text \<open>Every node has a smaller number than the next node to come.\<close>

definition allocated :: "Matrix \<Rightarrow> nat set \<Rightarrow> (nat \<Rightarrow> nat list) \<Rightarrow> bool" where
  "allocated m C vl = (\<forall>c \<in> C. c < nextId m \<and> (\<forall>x \<in> set (vl c). x < nextId m))"

lemma addNode_vlists:
  assumes v: "vlists m C vl" and a: "allocated m C vl" and c: "colm \<in> C"
  shows "vlists (snd (addNode colm r cl num m)) C (vl(colm := vl colm @ [nextId m]))"
    "allocated (snd (addNode colm r cl num m)) C (vl(colm := vl colm @ [nextId m]))"
proof -
  let ?n = "nextId m"
  let ?m' = "snd (addNode colm r cl num m)"
  from a c have ne: "colm \<noteq> ?n" by (auto simp: allocated_def)
  note f = addNode_fields[OF ne, of r cl num]
  from v c have vc: "column m colm = colm" "cyc (down m) (up m) colm (vl colm)"
    "colSize m colm = int (length (vl colm))" "\<forall>x \<in> set (vl colm). column m x = colm"
    by (simp_all add: vlists_def)
  have fresh: "?n \<notin> set (colm # vl colm)" using a c by (auto simp: allocated_def)
  have new: "cyc (down ?m') (up ?m') colm (vl colm @ [?n])"
    unfolding f by (rule cyc_snoc[OF vc(2) fresh])
  have "last (colm # vl colm) \<in> set (colm # vl colm)" by (rule last_in_set) simp
  then have lastc: "up m colm \<in> set (colm # vl colm)"
    using cyc_head(2)[OF vc(2)] by simp
  show "vlists ?m' C (vl(colm := vl colm @ [?n]))"
    unfolding vlists_def
  proof (intro ballI)
    fix c' assume c': "c' \<in> C"
    show "column ?m' c' = c' \<and> cyc (down ?m') (up ?m') c' ((vl(colm := vl colm @ [?n])) c')
        \<and> colSize ?m' c' = int (length ((vl(colm := vl colm @ [?n])) c'))
        \<and> (\<forall>x \<in> set ((vl(colm := vl colm @ [?n])) c'). column ?m' x = c')"
    proof (cases "c' = colm")
      case True
      have "column ?m' colm = colm" using vc(1) ne by (simp add: f)
      moreover have "colSize ?m' colm = int (length (vl colm @ [?n]))" using vc(3) by (simp add: f)
      moreover have "\<forall>x \<in> set (vl colm @ [?n]). column ?m' x = colm"
        using vc(4) by (simp add: f)
      ultimately show ?thesis using new True by simp
    next
      case False
      from v c' have vc': "column m c' = c'" "cyc (down m) (up m) c' (vl c')"
        "colSize m c' = int (length (vl c'))" "\<forall>x \<in> set (vl c'). column m x = c'"
        by (simp_all add: vlists_def)
      have fr: "\<forall>z \<in> insert c' (set (vl c')). z \<noteq> ?n \<and> z \<noteq> colm \<and> z \<noteq> up m colm"
      proof
        fix z assume z: "z \<in> insert c' (set (vl c'))"
        from vlists_disjoint[OF v c' c False z] lastc have "z \<noteq> colm" "z \<noteq> up m colm" by auto
        moreover from z a c' have "z \<noteq> ?n" by (auto simp: allocated_def)
        ultimately show "z \<noteq> ?n \<and> z \<noteq> colm \<and> z \<noteq> up m colm" by simp
      qed
      have "cyc (down ?m') (up ?m') c' (vl c') = cyc (down m) (up m) c' (vl c')"
        by (rule cyc_frame) (use fr in \<open>simp add: f\<close>)
      moreover have "column ?m' c' = c'" using vc'(1) fr by (simp add: f)
      moreover have "\<forall>x \<in> set (vl c'). column ?m' x = c'" using vc'(4) fr by (simp add: f)
      ultimately show ?thesis using False vc'(2,3) by (simp add: f)
    qed
  qed
  show "allocated ?m' C (vl(colm := vl colm @ [?n]))"
    using a unfolding allocated_def by (auto simp: f less_Suc_eq)
qed

text \<open>The numbers of the four columns of a candidate: the columns are numbered from 1.\<close>

definition colIds :: "nat \<times> nat \<times> int \<Rightarrow> nat list" where
  "colIds = (\<lambda>(r, c, num).
     [Suc (r * 9 + c), Suc (81 + r * 9 + nat (num - 1)), Suc (162 + c * 9 + nat (num - 1)),
      Suc (243 + boxOf r c * 9 + nat (num - 1))])"

definition attr :: "Matrix \<Rightarrow> nat \<Rightarrow> nat \<times> nat \<times> int" where
  "attr m x = (nodeRow m x, nodeCol m x, nodeNum m x)"

definition candOk :: "nat \<times> nat \<times> int \<Rightarrow> bool" where
  "candOk = (\<lambda>(r, c, num). r < 9 \<and> c < 9 \<and> 1 \<le> num \<and> num \<le> 9)"

lemma colIds_range:
  assumes "candOk cand"
  shows "set (colIds cand) \<subseteq> set [1..<325]" "distinct (colIds cand)"
proof -
  obtain r c num where cand: "cand = (r, c, num)" by (cases cand)
  from assms have b: "r < 9" "c < 9" "1 \<le> num" "num \<le> 9" by (simp_all add: cand candOk_def)
  have bx: "boxOf r c < 9" by (rule boxOf_lt[OF b(1,2)])
  from b have n: "nat (num - 1) < 9" by simp
  show "set (colIds cand) \<subseteq> set [1..<325]" using b(1,2) bx n by (simp add: cand colIds_def)
  show "distinct (colIds cand)" using b(1,2) bx n by (simp add: cand colIds_def)
qed

lemma length_colIds [simp]: "length (colIds cand) = 4"
  by (cases cand) (simp add: colIds_def)

lemma colIds_nth:
  assumes "candOk cand" "i < 4"
  shows "colIds cand ! i \<in> set [1..<325]"
proof -
  have "colIds cand ! i \<in> set (colIds cand)" by (rule nth_mem) (simp add: assms(2))
  with colIds_range(1)[OF assms(1)] show ?thesis by (rule_tac subsetD)
qed

lemma linkRow_fields:
  "right (linkRow [a, b, c, d] m) = (right m)(a := b, b := c, c := d, d := a)"
  "left (linkRow [a, b, c, d] m) = (left m)(b := a, c := b, d := c, a := d)"
  "up (linkRow ns m) = up m" "down (linkRow ns m) = down m" "column (linkRow ns m) = column m"
  "colSize (linkRow ns m) = colSize m" "nodeRow (linkRow ns m) = nodeRow m"
  "nodeCol (linkRow ns m) = nodeCol m" "nodeNum (linkRow ns m) = nodeNum m"
  "nextId (linkRow ns m) = nextId m"
proof -
  have u: "[0..<4] = [0, 1, 2, 3]" by (simp add: upt_rec)
  show "right (linkRow [a, b, c, d] m) = (right m)(a := b, b := c, c := d, d := a)"
    "left (linkRow [a, b, c, d] m) = (left m)(b := a, c := b, d := c, a := d)"
    "up (linkRow ns m) = up m" "down (linkRow ns m) = down m" "column (linkRow ns m) = column m"
    "colSize (linkRow ns m) = colSize m" "nodeRow (linkRow ns m) = nodeRow m"
    "nodeCol (linkRow ns m) = nodeCol m" "nodeNum (linkRow ns m) = nodeNum m"
    "nextId (linkRow ns m) = nextId m"
    unfolding linkRow_def u by (simp_all add: Let_def)
qed

text \<open>The four nodes of a row, one after the other.\<close>

definition addNodes4 :: "nat list \<Rightarrow> nat \<Rightarrow> nat \<Rightarrow> int \<Rightarrow> Matrix \<Rightarrow> Matrix" where
  "addNodes4 cs r c num m =
     snd (addNode (cs ! 3) r c num (snd (addNode (cs ! 2) r c num
       (snd (addNode (cs ! 1) r c num (snd (addNode (cs ! 0) r c num m)))))))"

lemma addRow_nodes:
  assumes "columns s = [1..<325]" "candOk (r, c, num)"
    and "\<forall>x \<in> set [1..<325]. x < nextId (nodes s)"
  shows "nodes (addRow r c num s)
     = linkRow [nextId (nodes s), nextId (nodes s) + 1, nextId (nodes s) + 2, nextId (nodes s) + 3]
         (addNodes4 (colIds (r, c, num)) r c num (nodes s))"
    "header (addRow r c num s) = header s" "columns (addRow r c num s) = columns s"
    "board (addRow r c num s) = board s"
proof -
  from assms(2) have b: "r < 9" "c < 9" "1 \<le> num" "num \<le> 9" by (simp_all add: candOk_def)
  have bx: "boxOf r c < 9" by (rule boxOf_lt[OF b(1,2)])
  from b have n: "nat (num - 1) < 9" by simp
  let ?m = "nodes s"
  have i0: "nat (int r * 9 + int c) = r * 9 + c" by simp
  have i1: "nat (81 + (int r * 9 + (num - 1))) = 81 + r * 9 + nat (num - 1)" using b by simp
  have i2: "nat (162 + (int c * 9 + (num - 1))) = 162 + c * 9 + nat (num - 1)" using b by simp
  have i3: "nat (243 + (int (boxOf r c) * 9 + (num - 1))) = 243 + boxOf r c * 9 + nat (num - 1)"
    using b by simp
  have nth: "\<And>i. i < 324 \<Longrightarrow> [1..<325] ! i = Suc i" by simp
  have c0: "columns s ! nat (int r * 9 + int c) = colIds (r, c, num) ! 0"
    unfolding i0 assms(1) using b(1,2) by (simp add: colIds_def)
  have c1: "columns s ! nat (81 + (int r * 9 + (num - 1))) = colIds (r, c, num) ! 1"
    unfolding i1 assms(1) using b(1,2) n by (simp add: colIds_def)
  have c2: "columns s ! nat (162 + (int c * 9 + (num - 1))) = colIds (r, c, num) ! 2"
    unfolding i2 assms(1) using b(1,2) n by (simp add: colIds_def)
  have c3: "columns s ! nat (243 + (int (boxOf r c) * 9 + (num - 1))) = colIds (r, c, num) ! 3"
    unfolding i3 assms(1) using bx n by (simp add: colIds_def)
  let ?cs = "colIds (r, c, num)"
  have lt: "?cs ! i < nextId ?m" if "i < 4" for i
    using assms(3) colIds_nth[OF assms(2) that] by (rule bspec)
  let ?m1 = "snd (addNode (?cs ! 0) r c num ?m)"
  let ?m2 = "snd (addNode (?cs ! 1) r c num ?m1)"
  let ?m3 = "snd (addNode (?cs ! 2) r c num ?m2)"
  have ne0: "?cs ! 0 \<noteq> nextId ?m" using lt[of 0] by simp
  note f0 = addNode_fields[OF ne0, of r c num]
  have ne1: "?cs ! 1 \<noteq> nextId ?m1" using lt[of 1] unfolding f0(11) by simp
  note f1 = addNode_fields[OF ne1, of r c num]
  have ne2: "?cs ! 2 \<noteq> nextId ?m2" using lt[of 2] unfolding f1(11) f0(11) by simp
  note f2 = addNode_fields[OF ne2, of r c num]
  have ne3: "?cs ! 3 \<noteq> nextId ?m3" using lt[of 3] unfolding f2(11) f1(11) f0(11) by simp
  note f3 = addNode_fields[OF ne3, of r c num]
  show "nodes (addRow r c num s)
     = linkRow [nextId ?m, nextId ?m + 1, nextId ?m + 2, nextId ?m + 3]
         (addNodes4 ?cs r c num ?m)"
    unfolding addRow_def Let_def split_beta c0 c1 c2 c3 addNodes4_def
      f3(1) f2(1,11) f1(1,11) f0(1,11)
    by (simp add: numeral_3_eq_3)
  show "header (addRow r c num s) = header s" "columns (addRow r c num s) = columns s"
    "board (addRow r c num s) = board s"
    by (simp_all add: addRow_def Let_def split_beta)
qed

text \<open>The lists of the columns after the four nodes \<open>n\<close>, \<open>n + 1\<close>, \<open>n + 2\<close>, \<open>n + 3\<close> of a new row.\<close>

definition withRow :: "(nat \<Rightarrow> nat list) \<Rightarrow> nat \<Rightarrow> nat list \<Rightarrow> nat \<Rightarrow> nat list" where
  "withRow vl n cs = (\<lambda>c. vl c @ map (\<lambda>i. n + i) (filter (\<lambda>i. cs ! i = c) [0..<4]))"

lemma upt4: "[0..<4] = [0, 1, 2, 3]"
  by (simp add: upt_rec)

lemma withRow_nested:
  assumes "distinct [c0, c1, c2, c3]"
  shows "withRow vl n [c0, c1, c2, c3]
    = (let vl1 = vl(c0 := vl c0 @ [n]); vl2 = vl1(c1 := vl1 c1 @ [n + 1]);
           vl3 = vl2(c2 := vl2 c2 @ [n + 2])
       in vl3(c3 := vl3 c3 @ [n + 3]))"
  using assms by (auto simp: withRow_def upt4 Let_def fun_eq_iff)

lemma set_withRow:
  "x \<in> set (withRow vl n cs c) \<longleftrightarrow> x \<in> set (vl c) \<or> (\<exists>i<4. cs ! i = c \<and> x = n + i)"
  by (auto simp: withRow_def)

lemma addNodes4_vlists:
  assumes v: "vlists m C vl" and a: "allocated m C vl"
    and c: "c0 \<in> C" "c1 \<in> C" "c2 \<in> C" "c3 \<in> C" and d: "distinct [c0, c1, c2, c3]"
  shows "vlists (addNodes4 [c0, c1, c2, c3] r cl num m) C (withRow vl (nextId m) [c0, c1, c2, c3])"
    "allocated (addNodes4 [c0, c1, c2, c3] r cl num m) C (withRow vl (nextId m) [c0, c1, c2, c3])"
    "nextId (addNodes4 [c0, c1, c2, c3] r cl num m) = nextId m + 4"
proof -
  let ?n = "nextId m"
  let ?m1 = "snd (addNode c0 r cl num m)"
  let ?m2 = "snd (addNode c1 r cl num ?m1)"
  let ?m3 = "snd (addNode c2 r cl num ?m2)"
  let ?m4 = "snd (addNode c3 r cl num ?m3)"
  let ?vl1 = "vl(c0 := vl c0 @ [?n])"
  let ?vl2 = "?vl1(c1 := ?vl1 c1 @ [?n + 1])"
  let ?vl3 = "?vl2(c2 := ?vl2 c2 @ [?n + 2])"
  let ?vl4 = "?vl3(c3 := ?vl3 c3 @ [?n + 3])"
  have m4: "addNodes4 [c0, c1, c2, c3] r cl num m = ?m4" by (simp add: addNodes4_def)
  have w: "withRow vl ?n [c0, c1, c2, c3] = ?vl4"
    unfolding withRow_nested[OF d] Let_def ..
  from a c have ne0: "c0 \<noteq> nextId m" by (auto simp: allocated_def)
  have n1: "nextId ?m1 = ?n + 1" by (simp add: addNode_fields(11)[OF ne0])
  note s1 = addNode_vlists[OF v a c(1), of r cl num]
  from s1(2) c have ne1: "c1 \<noteq> nextId ?m1" by (auto simp: allocated_def)
  have n2: "nextId ?m2 = ?n + 2" by (simp add: addNode_fields(11)[OF ne1] n1)
  note s2 = addNode_vlists[OF s1 c(2), of r cl num, unfolded n1]
  from s2(2) c have ne2: "c2 \<noteq> nextId ?m2" by (auto simp: allocated_def)
  have n3: "nextId ?m3 = ?n + 3" by (simp add: addNode_fields(11)[OF ne2] n2)
  note s3 = addNode_vlists[OF s2 c(3), of r cl num, unfolded n2]
  from s3(2) c have ne3: "c3 \<noteq> nextId ?m3" by (auto simp: allocated_def)
  have n4: "nextId ?m4 = ?n + 4" by (simp add: addNode_fields(11)[OF ne3] n3)
  note s4 = addNode_vlists[OF s3 c(4), of r cl num, unfolded n3]
  show "vlists (addNodes4 [c0, c1, c2, c3] r cl num m) C (withRow vl ?n [c0, c1, c2, c3])"
    unfolding m4 w by (rule s4(1))
  show "allocated (addNodes4 [c0, c1, c2, c3] r cl num m) C (withRow vl ?n [c0, c1, c2, c3])"
    unfolding m4 w by (rule s4(2))
  show "nextId (addNodes4 [c0, c1, c2, c3] r cl num m) = ?n + 4"
    unfolding m4 by (rule n4)
qed

lemma addNodes4_fields:
  assumes "c0 < nextId m" "c1 < nextId m" "c2 < nextId m" "c3 < nextId m"
  shows "left (addNodes4 [c0, c1, c2, c3] r cl num m)
      = (left m)(nextId m := nextId m, nextId m + 1 := nextId m + 1,
                 nextId m + 2 := nextId m + 2, nextId m + 3 := nextId m + 3)"
    "right (addNodes4 [c0, c1, c2, c3] r cl num m)
      = (right m)(nextId m := nextId m, nextId m + 1 := nextId m + 1,
                 nextId m + 2 := nextId m + 2, nextId m + 3 := nextId m + 3)"
    "column (addNodes4 [c0, c1, c2, c3] r cl num m)
      = (column m)(nextId m := c0, nextId m + 1 := c1, nextId m + 2 := c2, nextId m + 3 := c3)"
    "nodeRow (addNodes4 [c0, c1, c2, c3] r cl num m)
      = (nodeRow m)(nextId m := r, nextId m + 1 := r, nextId m + 2 := r, nextId m + 3 := r)"
    "nodeCol (addNodes4 [c0, c1, c2, c3] r cl num m)
      = (nodeCol m)(nextId m := cl, nextId m + 1 := cl, nextId m + 2 := cl, nextId m + 3 := cl)"
    "nodeNum (addNodes4 [c0, c1, c2, c3] r cl num m)
      = (nodeNum m)(nextId m := num, nextId m + 1 := num, nextId m + 2 := num, nextId m + 3 := num)"
proof -
  let ?n = "nextId m"
  let ?m1 = "snd (addNode c0 r cl num m)"
  let ?m2 = "snd (addNode c1 r cl num ?m1)"
  let ?m3 = "snd (addNode c2 r cl num ?m2)"
  let ?m4 = "snd (addNode c3 r cl num ?m3)"
  have m4: "addNodes4 [c0, c1, c2, c3] r cl num m = ?m4" by (simp add: addNodes4_def)
  have ne0: "c0 \<noteq> nextId m" using assms by simp
  note f0 = addNode_fields[OF ne0, of r cl num]
  have n1: "nextId ?m1 = ?n + 1" by (simp add: f0(11))
  have ne1: "c1 \<noteq> nextId ?m1" using assms unfolding n1 by simp
  note f1 = addNode_fields[OF ne1, of r cl num, unfolded n1]
  have n2: "nextId ?m2 = ?n + 2" using f1(11) by simp
  have ne2: "c2 \<noteq> nextId ?m2" using assms unfolding n2 by simp
  note f2 = addNode_fields[OF ne2, of r cl num, unfolded n2]
  have n3: "nextId ?m3 = ?n + 3" using f2(11) by simp
  have ne3: "c3 \<noteq> nextId ?m3" using assms unfolding n3 by simp
  note f3 = addNode_fields[OF ne3, of r cl num, unfolded n3]
  show "left (addNodes4 [c0, c1, c2, c3] r cl num m)
      = (left m)(?n := ?n, ?n + 1 := ?n + 1, ?n + 2 := ?n + 2, ?n + 3 := ?n + 3)"
    unfolding m4 f3(2) f2(2) f1(2) f0(2) ..
  show "right (addNodes4 [c0, c1, c2, c3] r cl num m)
      = (right m)(?n := ?n, ?n + 1 := ?n + 1, ?n + 2 := ?n + 2, ?n + 3 := ?n + 3)"
    unfolding m4 f3(3) f2(3) f1(3) f0(3) ..
  show "column (addNodes4 [c0, c1, c2, c3] r cl num m)
      = (column m)(?n := c0, ?n + 1 := c1, ?n + 2 := c2, ?n + 3 := c3)"
    unfolding m4 f3(6) f2(6) f1(6) f0(6) ..
  show "nodeRow (addNodes4 [c0, c1, c2, c3] r cl num m)
      = (nodeRow m)(?n := r, ?n + 1 := r, ?n + 2 := r, ?n + 3 := r)"
    unfolding m4 f3(8) f2(8) f1(8) f0(8) ..
  show "nodeCol (addNodes4 [c0, c1, c2, c3] r cl num m)
      = (nodeCol m)(?n := cl, ?n + 1 := cl, ?n + 2 := cl, ?n + 3 := cl)"
    unfolding m4 f3(9) f2(9) f1(9) f0(9) ..
  show "nodeNum (addNodes4 [c0, c1, c2, c3] r cl num m)
      = (nodeNum m)(?n := num, ?n + 1 := num, ?n + 2 := num, ?n + 3 := num)"
    unfolding m4 f3(10) f2(10) f1(10) f0(10) ..
qed

definition newRow :: "nat list \<Rightarrow> nat \<Rightarrow> nat \<Rightarrow> int \<Rightarrow> Matrix \<Rightarrow> Matrix" where
  "newRow cs r c num m =
     linkRow [nextId m, nextId m + 1, nextId m + 2, nextId m + 3] (addNodes4 cs r c num m)"

lemma newRow_old:
  assumes "c0 < nextId m" "c1 < nextId m" "c2 < nextId m" "c3 < nextId m" and z: "z < nextId m"
  shows "right (newRow [c0, c1, c2, c3] r cl num m) z = right m z"
    "left (newRow [c0, c1, c2, c3] r cl num m) z = left m z"
    "column (newRow [c0, c1, c2, c3] r cl num m) z = column m z"
    "attr (newRow [c0, c1, c2, c3] r cl num m) z = attr m z"
  using z unfolding newRow_def attr_def linkRow_fields addNodes4_fields[OF assms(1-4)]
  by simp_all

lemma newRow_new:
  assumes "c0 < nextId m" "c1 < nextId m" "c2 < nextId m" "c3 < nextId m"
  shows "right (newRow [c0, c1, c2, c3] r cl num m) (nextId m) = nextId m + 1"
    "right (newRow [c0, c1, c2, c3] r cl num m) (nextId m + 1) = nextId m + 2"
    "right (newRow [c0, c1, c2, c3] r cl num m) (nextId m + 2) = nextId m + 3"
    "right (newRow [c0, c1, c2, c3] r cl num m) (nextId m + 3) = nextId m"
    "left (newRow [c0, c1, c2, c3] r cl num m) (nextId m) = nextId m + 3"
    "left (newRow [c0, c1, c2, c3] r cl num m) (nextId m + 1) = nextId m"
    "left (newRow [c0, c1, c2, c3] r cl num m) (nextId m + 2) = nextId m + 1"
    "left (newRow [c0, c1, c2, c3] r cl num m) (nextId m + 3) = nextId m + 2"
    "column (newRow [c0, c1, c2, c3] r cl num m) (nextId m) = c0"
    "column (newRow [c0, c1, c2, c3] r cl num m) (nextId m + 1) = c1"
    "column (newRow [c0, c1, c2, c3] r cl num m) (nextId m + 2) = c2"
    "column (newRow [c0, c1, c2, c3] r cl num m) (nextId m + 3) = c3"
    "attr (newRow [c0, c1, c2, c3] r cl num m) (nextId m) = (r, cl, num)"
    "attr (newRow [c0, c1, c2, c3] r cl num m) (nextId m + 1) = (r, cl, num)"
    "attr (newRow [c0, c1, c2, c3] r cl num m) (nextId m + 2) = (r, cl, num)"
    "attr (newRow [c0, c1, c2, c3] r cl num m) (nextId m + 3) = (r, cl, num)"
  unfolding newRow_def attr_def linkRow_fields addNodes4_fields[OF assms(1-4)]
  by simp_all

lemma newRow_vertical:
  "up (newRow cs r cl num m) = up (addNodes4 cs r cl num m)"
  "down (newRow cs r cl num m) = down (addNodes4 cs r cl num m)"
  "colSize (newRow cs r cl num m) = colSize (addNodes4 cs r cl num m)"
  "column (newRow cs r cl num m) = column (addNodes4 cs r cl num m)"
  "nextId (newRow cs r cl num m) = nextId (addNodes4 cs r cl num m)"
  by (simp_all add: newRow_def linkRow_fields)

lemma four_cases: "i < (4::nat) \<Longrightarrow> i = 0 \<or> i = 1 \<or> i = 2 \<or> i = 3"
  by arith

lemma newRow_ring:
  assumes lt: "c0 < nextId m" "c1 < nextId m" "c2 < nextId m" "c3 < nextId m"
    and d: "distinct [c0, c1, c2, c3]" and i: "i < 4"
  shows "rowRing (newRow [c0, c1, c2, c3] r cl num m) (nextId m + i)"
    "set ((nextId m + i) # others (newRow [c0, c1, c2, c3] r cl num m) (nextId m + i))
      = {nextId m, nextId m + 1, nextId m + 2, nextId m + 3}"
    "rowColumns (newRow [c0, c1, c2, c3] r cl num m) (nextId m + i) = {c0, c1, c2, c3}"
proof -
  note nw = newRow_new[OF lt, of r cl num, simplified]
  from four_cases[OF i] show "rowRing (newRow [c0, c1, c2, c3] r cl num m) (nextId m + i)"
    using d unfolding rowRing_def Let_def by (elim disjE) (simp_all add: nw)
  from four_cases[OF i]
  show "set ((nextId m + i) # others (newRow [c0, c1, c2, c3] r cl num m) (nextId m + i))
      = {nextId m, nextId m + 1, nextId m + 2, nextId m + 3}"
    unfolding others_def by (elim disjE) (auto simp: nw)
  from four_cases[OF i]
  show "rowColumns (newRow [c0, c1, c2, c3] r cl num m) (nextId m + i) = {c0, c1, c2, c3}"
    unfolding rowColumns_def others_def by (elim disjE) (auto simp: nw)
qed

lemma rowRing_eqI':
  assumes "rowRing m x"
    "\<forall>z \<in> set (x # others m x). right m' z = right m z \<and> left m' z = left m z
        \<and> column m' z = column m z"
  shows "rowRing m' x" "others m' x = others m x" "rowColumns m' x = rowColumns m x"
proof -
  from assms show o: "others m' x = others m x" by (simp add: others_def)
  from assms show "rowRing m' x" by (simp add: rowRing_def others_def Let_def)
  from assms(2) show "rowColumns m' x = rowColumns m x"
    unfolding rowColumns_def o by (intro arg_cong[where f = set] map_cong refl) blast
qed

definition allColumns :: "nat list" where
  "allColumns = [1..<325]"

text \<open>
  The matrix after the rows of the candidates \<open>cs\<close> have been added: the links are in
  order, every node of a column carries a candidate of \<open>cs\<close> and stands in the four columns
  of its candidate, every candidate has a node in each of its columns, and no column holds
  a candidate twice.
\<close>

definition built :: "(nat \<times> nat \<times> int) list \<Rightarrow> Matrix \<Rightarrow> (nat \<Rightarrow> nat list) \<Rightarrow> bool" where
  "built cs m vl =
     (dl m 0 allColumns vl \<and> allocated m (set allColumns) vl \<and> 0 < nextId m
      \<and> (\<forall>c \<in> set allColumns. \<forall>x \<in> set (vl c).
            attr m x \<in> set cs \<and> rowColumns m x = set (colIds (attr m x)))
      \<and> (\<forall>cand \<in> set cs. \<forall>c \<in> set (colIds cand). \<exists>x \<in> set (vl c). attr m x = cand)
      \<and> (\<forall>c \<in> set allColumns. distinct (map (attr m) (vl c)) \<and> length (vl c) \<le> length cs)
      \<and> (\<forall>cand \<in> set cs. candOk cand))"

lemma builtD:
  assumes "built cs m vl"
  shows "dl m 0 allColumns vl" "allocated m (set allColumns) vl" "0 < nextId m"
    "\<And>c x. c \<in> set allColumns \<Longrightarrow> x \<in> set (vl c) \<Longrightarrow>
        attr m x \<in> set cs \<and> rowColumns m x = set (colIds (attr m x))"
    "\<And>cand c. cand \<in> set cs \<Longrightarrow> c \<in> set (colIds cand) \<Longrightarrow> \<exists>x \<in> set (vl c). attr m x = cand"
    "\<And>c. c \<in> set allColumns \<Longrightarrow> distinct (map (attr m) (vl c)) \<and> length (vl c) \<le> length cs"
    "\<And>cand. cand \<in> set cs \<Longrightarrow> candOk cand"
  using assms unfolding built_def by blast+

lemma length_filter_distinct4:
  assumes "distinct [c0, c1, c2, c3]"
  shows "length (filter (\<lambda>i. [c0, c1, c2, c3] ! i = c) [0..<4]) \<le> 1"
  using assms unfolding upt4 by auto

lemma built_step:
  assumes b: "built cs m vl" and ok: "candOk (r, cl, num)" and new: "(r, cl, num) \<notin> set cs"
  shows "built (cs @ [(r, cl, num)]) (newRow (colIds (r, cl, num)) r cl num m)
           (withRow vl (nextId m) (colIds (r, cl, num)))"
proof -
  let ?cand = "(r, cl, num)"
  let ?C = "set allColumns"
  let ?n = "nextId m"
  note B = builtD[OF b]
  obtain c0 c1 c2 c3 where cs4: "colIds ?cand = [c0, c1, c2, c3]"
    by (simp add: colIds_def)
  let ?cs = "[c0, c1, c2, c3]"
  let ?m' = "newRow ?cs r cl num m"
  let ?vl' = "withRow vl ?n ?cs"
  from colIds_range[OF ok] have memC: "set ?cs \<subseteq> ?C" and d: "distinct ?cs"
    unfolding cs4 allColumns_def by simp_all
  from memC have mem: "c0 \<in> ?C" "c1 \<in> ?C" "c2 \<in> ?C" "c3 \<in> ?C" by simp_all
  have hl: "z < ?n" if "z \<in> insert 0 ?C" for z
    using that B(2,3) unfolding allocated_def by auto
  have lt: "c0 < ?n" "c1 < ?n" "c2 < ?n" "c3 < ?n" using mem hl by simp_all
  note old = newRow_old[OF lt, of _ r cl num]
  note ring = newRow_ring[OF lt d, of _ r cl num]
  note nw = newRow_new[OF lt, of r cl num, simplified]
  have newcol: "column ?m' (?n + j) = ?cs ! j" and newattr: "attr ?m' (?n + j) = ?cand"
    if "j < 4" for j
    using four_cases[OF that] by (auto simp: nw)
  have nodelt: "x < ?n" if "c \<in> ?C" "x \<in> set (vl c)" for c x
    using that B(2) unfolding allocated_def by blast
  \<comment> \<open>the lists of the columns\<close>
  note a4 = addNodes4_vlists[OF B(1)[unfolded dl_def, THEN conjunct2, THEN conjunct1] B(2) mem d,
      of r cl num]
  have v': "vlists ?m' ?C ?vl'"
    using a4(1) by (simp add: vlists_cong[of ?m' "addNodes4 ?cs r cl num m"] newRow_vertical)
  have a': "allocated ?m' ?C ?vl'"
    using a4(2) unfolding allocated_def newRow_vertical .
  have n': "nextId ?m' = ?n + 4" using a4(3) by (simp add: newRow_vertical)
  \<comment> \<open>the header list\<close>
  from B(1) have hr: "cyc (right m) (left m) 0 allColumns" by (simp add: dl_def)
  have "cyc (right ?m') (left ?m') 0 allColumns = cyc (right m) (left m) 0 allColumns"
    by (rule cyc_frame) (use hl old(1,2) in blast)
  with hr have hr': "cyc (right ?m') (left ?m') 0 allColumns" by simp
  \<comment> \<open>the old rows\<close>
  have oldrow: "rowRing ?m' x \<and> others ?m' x = others m x \<and> rowColumns ?m' x = rowColumns m x
      \<and> attr ?m' x = attr m x \<and> x \<notin> insert 0 ?C
      \<and> (\<forall>y \<in> set (others m x). column ?m' y \<in> ?C \<and> y \<in> set (?vl' (column ?m' y)))"
    if c: "c \<in> ?C" and x: "x \<in> set (vl c)" for c x
  proof -
    note r = dl_row[OF B(1) c x]
    have xl: "x < ?n" by (rule nodelt[OF c x])
    have yl: "y < ?n" if "y \<in> set (others m x)" for y
      using r(4) that nodelt by blast
    have e: "\<forall>z \<in> set (x # others m x). right ?m' z = right m z \<and> left ?m' z = left m z
        \<and> column ?m' z = column m z"
      using xl yl old(1,2,3) by auto
    note q = rowRing_eqI'[OF r(2) e]
    have "column ?m' y \<in> ?C \<and> y \<in> set (?vl' (column ?m' y))" if y: "y \<in> set (others m x)" for y
      using r(4) y old(3)[OF yl[OF y]] by (simp add: set_withRow)
    then show ?thesis using q old(4)[OF xl] r(1) by blast
  qed
  \<comment> \<open>the new row\<close>
  have newnode: "\<exists>j<4. y = ?n + j" if "y \<in> {?n, ?n + 1, ?n + 2, ?n + 3}" for y
  proof -
    from that consider "y = ?n + 0" | "y = ?n + 1" | "y = ?n + 2" | "y = ?n + 3" by auto
    then show ?thesis by cases (rule exI[of _ 0], simp, rule exI[of _ 1], simp,
        rule exI[of _ 2], simp, rule exI[of _ 3], simp)
  qed
  have newrow: "rowRing ?m' (?n + i) \<and> rowColumns ?m' (?n + i) = set (colIds ?cand)
      \<and> attr ?m' (?n + i) = ?cand \<and> ?n + i \<notin> insert 0 ?C
      \<and> (\<forall>y \<in> set (others ?m' (?n + i)). column ?m' y \<in> ?C \<and> y \<in> set (?vl' (column ?m' y)))"
    if i: "i < 4" for i
  proof -
    have "column ?m' y \<in> ?C \<and> y \<in> set (?vl' (column ?m' y))"
      if y: "y \<in> set (others ?m' (?n + i))" for y
    proof -
      from y ring(2)[OF i] have "y \<in> {?n, ?n + 1, ?n + 2, ?n + 3}" by auto
      from newnode[OF this] obtain j where j: "j < 4" "y = ?n + j" by blast
      have "?cs ! j \<in> set ?cs" by (rule nth_mem) (use j(1) in simp)
      with memC have "?cs ! j \<in> ?C" by blast
      then show ?thesis unfolding j(2) newcol[OF j(1)] set_withRow using j(1) by blast
    qed
    moreover have "?n + i \<notin> insert 0 ?C"
    proof
      assume "?n + i \<in> insert 0 ?C"
      from hl[OF this] show False by simp
    qed
    ultimately show ?thesis using ring(1,3)[OF i] newattr[OF i] cs4 by simp
  qed
  \<comment> \<open>together\<close>
  have cases: "(x \<in> set (vl c)) \<or> (\<exists>i<4. ?cs ! i = c \<and> x = ?n + i)"
    if "x \<in> set (?vl' c)" for x c
    using that by (simp add: set_withRow)
  have rows': "\<forall>c \<in> ?C. \<forall>x \<in> set (?vl' c). x \<notin> insert 0 ?C \<and> rowRing ?m' x
      \<and> (\<forall>y \<in> set (others ?m' x). column ?m' y \<in> ?C \<and> y \<in> set (?vl' (column ?m' y)))"
  proof (intro ballI)
    fix c x assume c: "c \<in> ?C" and x: "x \<in> set (?vl' c)"
    from cases[OF x] show "x \<notin> insert 0 ?C \<and> rowRing ?m' x
      \<and> (\<forall>y \<in> set (others ?m' x). column ?m' y \<in> ?C \<and> y \<in> set (?vl' (column ?m' y)))"
    proof
      assume "x \<in> set (vl c)"
      from oldrow[OF c this] show ?thesis by simp
    next
      assume "\<exists>i<4. ?cs ! i = c \<and> x = ?n + i"
      then obtain i where "i < 4" "x = ?n + i" by blast
      with newrow[of i] show ?thesis by simp
    qed
  qed
  have dl': "dl ?m' 0 allColumns ?vl'"
    unfolding dl_def by (intro conjI hr' v' rows')
  have A: "\<forall>c \<in> ?C. \<forall>x \<in> set (?vl' c).
      attr ?m' x \<in> set (cs @ [?cand]) \<and> rowColumns ?m' x = set (colIds (attr ?m' x))"
  proof (intro ballI)
    fix c x assume c: "c \<in> ?C" and x: "x \<in> set (?vl' c)"
    from cases[OF x]
    show "attr ?m' x \<in> set (cs @ [?cand]) \<and> rowColumns ?m' x = set (colIds (attr ?m' x))"
    proof
      assume xo: "x \<in> set (vl c)"
      from oldrow[OF c xo] B(4)[OF c xo] show ?thesis by simp
    next
      assume "\<exists>i<4. ?cs ! i = c \<and> x = ?n + i"
      then obtain i where "i < 4" "x = ?n + i" by blast
      with newrow[of i] show ?thesis by simp
    qed
  qed
  have Bn: "\<forall>cand \<in> set (cs @ [?cand]). \<forall>c \<in> set (colIds cand). \<exists>x \<in> set (?vl' c). attr ?m' x = cand"
  proof (intro ballI)
    fix cand c assume cand: "cand \<in> set (cs @ [?cand])" and c: "c \<in> set (colIds cand)"
    show "\<exists>x \<in> set (?vl' c). attr ?m' x = cand"
    proof (cases "cand \<in> set cs")
      case True
      from B(5)[OF True c] obtain x where x: "x \<in> set (vl c)" "attr m x = cand" by blast
      have "c \<in> ?C"
        using colIds_range(1)[OF B(7)[OF True]] c unfolding allColumns_def by blast
      from oldrow[OF this x(1)] x show ?thesis by (auto simp: set_withRow)
    next
      case False
      with cand have e: "cand = ?cand" by simp
      from c obtain i where i: "i < 4" "?cs ! i = c"
        unfolding e cs4 by (metis in_set_conv_nth length_colIds cs4)
      have "?n + i \<in> set (?vl' c)" unfolding set_withRow using i by blast
      with newattr[OF i(1)] e show ?thesis by blast
    qed
  qed
  have Cn: "\<forall>c \<in> ?C. distinct (map (attr ?m') (?vl' c)) \<and> length (?vl' c) \<le> length (cs @ [?cand])"
  proof
    fix c assume c: "c \<in> ?C"
    let ?new = "map (\<lambda>i. ?n + i) (filter (\<lambda>i. ?cs ! i = c) [0..<4])"
    have e: "?vl' c = vl c @ ?new" by (simp add: withRow_def)
    have 1: "map (attr ?m') (vl c) = map (attr m) (vl c)"
      using oldrow[OF c] by (intro map_cong refl) blast
    have 2: "map (attr ?m') ?new = map (\<lambda>i. ?cand) (filter (\<lambda>i. ?cs ! i = c) [0..<4])"
      unfolding map_map by (intro map_cong refl) (simp add: newattr)
    have len: "length ?new \<le> 1" using length_filter_distinct4[OF d, of c] by simp
    then have dn: "distinct (map (attr ?m') ?new)"
      unfolding 2 by (cases "filter (\<lambda>i. ?cs ! i = c) [0..<4]") auto
    have "set (map (attr m) (vl c)) \<subseteq> set cs" using B(4)[OF c] by auto
    with new have dj: "set (map (attr m) (vl c)) \<inter> set (map (attr ?m') ?new) = {}"
      unfolding 2 by auto
    have "distinct (map (attr ?m') (?vl' c))"
      unfolding e map_append 1 using B(6)[OF c] dn dj by simp
    moreover have "length (?vl' c) \<le> length (cs @ [?cand])"
      unfolding e using B(6)[OF c] len by simp
    ultimately show "distinct (map (attr ?m') (?vl' c)) \<and> length (?vl' c) \<le> length (cs @ [?cand])"
      by simp
  qed
  have "0 < nextId ?m'" using n' by simp
  moreover have "\<forall>cand \<in> set (cs @ [?cand]). candOk cand" using B(7) ok by auto
  ultimately show ?thesis unfolding built_def cs4 using dl' a' A Bn Cn by blast
qed

text \<open>The header and the 324 columns.\<close>

definition columnsBuilt :: "nat \<Rightarrow> Solver \<Rightarrow> bool" where
  "columnsBuilt i s =
     (header s = 0 \<and> columns s = [1..<Suc i] \<and> nextId (nodes s) = Suc i
      \<and> cyc (right (nodes s)) (left (nodes s)) 0 [1..<Suc i]
      \<and> (\<forall>c. 1 \<le> c \<and> c \<le> i \<longrightarrow> column (nodes s) c = c \<and> up (nodes s) c = c
             \<and> down (nodes s) c = c \<and> colSize (nodes s) c = 0))"

lemma addColumn_fields:
  assumes "header s \<noteq> nextId (nodes s)"
  shows "header (addColumn s) = header s" "columns (addColumn s) = columns s @ [nextId (nodes s)]"
    "board (addColumn s) = board s"
    "nextId (nodes (addColumn s)) = Suc (nextId (nodes s))"
    "right (nodes (addColumn s))
      = (right (nodes s))(nextId (nodes s) := header s, left (nodes s) (header s) := nextId (nodes s))"
    "left (nodes (addColumn s))
      = (left (nodes s))(nextId (nodes s) := left (nodes s) (header s), header s := nextId (nodes s))"
    "column (nodes (addColumn s)) = (column (nodes s))(nextId (nodes s) := nextId (nodes s))"
    "up (nodes (addColumn s)) = (up (nodes s))(nextId (nodes s) := nextId (nodes s))"
    "down (nodes (addColumn s)) = (down (nodes s))(nextId (nodes s) := nextId (nodes s))"
    "colSize (nodes (addColumn s)) = (colSize (nodes s))(nextId (nodes s) := 0)"
  using assms by (simp_all add: addColumn_def newColumnNode_def newDLXNode_def Let_def)

lemma columnsBuilt_step:
  assumes "columnsBuilt i s"
  shows "columnsBuilt (Suc i) (addColumn s)"
proof -
  from assms have h: "header s = 0" and cs: "columns s = [1..<Suc i]"
    and n: "nextId (nodes s) = Suc i"
    and ring: "cyc (right (nodes s)) (left (nodes s)) 0 [1..<Suc i]"
    and cols: "\<forall>c. 1 \<le> c \<and> c \<le> i \<longrightarrow> column (nodes s) c = c \<and> up (nodes s) c = c
             \<and> down (nodes s) c = c \<and> colSize (nodes s) c = 0"
    by (simp_all add: columnsBuilt_def)
  have ne: "header s \<noteq> nextId (nodes s)" by (simp add: h n)
  note f = addColumn_fields[OF ne, unfolded h n]
  have "Suc i \<notin> set (0 # [1..<Suc i])" by simp
  from cyc_snoc[OF ring this]
  have "cyc (right (nodes (addColumn s))) (left (nodes (addColumn s))) 0 ([1..<Suc i] @ [Suc i])"
    unfolding f .
  moreover have "[1..<Suc i] @ [Suc i] = [1..<Suc (Suc i)]" by simp
  ultimately have "cyc (right (nodes (addColumn s))) (left (nodes (addColumn s))) 0 [1..<Suc (Suc i)]"
    by simp
  moreover have "columns (addColumn s) = [1..<Suc (Suc i)]" by (simp add: f cs)
  moreover have "\<forall>c. 1 \<le> c \<and> c \<le> Suc i \<longrightarrow> column (nodes (addColumn s)) c = c
      \<and> up (nodes (addColumn s)) c = c \<and> down (nodes (addColumn s)) c = c
      \<and> colSize (nodes (addColumn s)) c = 0"
    using cols by (simp add: f le_Suc_eq)
  ultimately show ?thesis unfolding columnsBuilt_def using f(1,4) by simp
qed

lemma columnsBuilt_fold:
  assumes "columnsBuilt 0 s"
  shows "columnsBuilt n (foldl (\<lambda>t i. addColumn t) s [0..<n])"
    "board (foldl (\<lambda>t i. addColumn t) s [0..<n]) = board s"
proof -
  have "columnsBuilt n (foldl (\<lambda>t i. addColumn t) s [0..<n])
      \<and> board (foldl (\<lambda>t i. addColumn t) s [0..<n]) = board s"
  proof (induction n)
    case 0
    show ?case using assms by simp
  next
    case (Suc n)
    then have c: "columnsBuilt n (foldl (\<lambda>t i. addColumn t) s [0..<n])"
      and b: "board (foldl (\<lambda>t i. addColumn t) s [0..<n]) = board s"
      by simp_all
    from c have "header (foldl (\<lambda>t i. addColumn t) s [0..<n])
        \<noteq> nextId (nodes (foldl (\<lambda>t i. addColumn t) s [0..<n]))"
      by (simp add: columnsBuilt_def)
    from addColumn_fields(3)[OF this] columnsBuilt_step[OF c] b show ?case by simp
  qed
  then show "columnsBuilt n (foldl (\<lambda>t i. addColumn t) s [0..<n])"
    "board (foldl (\<lambda>t i. addColumn t) s [0..<n]) = board s"
    by simp_all
qed

lemma columnsBuilt_initial:
  "columnsBuilt 0 (s\<lparr>header := fst (newColumnNode emptyMatrix), columns := [],
      nodes := snd (newColumnNode emptyMatrix)\<rparr>)"
  by (simp add: columnsBuilt_def newColumnNode_def newDLXNode_def emptyMatrix_def Let_def cyc_def)

lemma columnsBuilt_built:
  assumes "columnsBuilt 324 s"
  shows "built [] (nodes s) (\<lambda>_. [])"
proof -
  let ?m = "nodes s"
  from assms have n: "nextId ?m = 325" and ring: "cyc (right ?m) (left ?m) 0 allColumns"
    and cols: "\<forall>c. 1 \<le> c \<and> c \<le> 324 \<longrightarrow> column ?m c = c \<and> up ?m c = c
             \<and> down ?m c = c \<and> colSize ?m c = 0"
    by (simp_all add: columnsBuilt_def allColumns_def)
  have mem: "1 \<le> c \<and> c \<le> 324" if "c \<in> set allColumns" for c
    using that by (simp add: allColumns_def)
  have "vlists ?m (set allColumns) (\<lambda>_. [])"
    unfolding vlists_def using cols mem by (simp add: cyc_def)
  with ring have "dl ?m 0 allColumns (\<lambda>_. [])" by (simp add: dl_def)
  moreover have "allocated ?m (set allColumns) (\<lambda>_. [])"
    unfolding allocated_def n using mem by fastforce
  ultimately show ?thesis unfolding built_def using n by simp
qed

text \<open>The rows: those of the candidates of the grid, cell after cell.\<close>

definition cellCands :: "Board \<Rightarrow> nat \<times> nat \<Rightarrow> (nat \<times> nat \<times> int) list" where
  "cellCands g = (\<lambda>(r, c). if cell g r c = 0 then map (\<lambda>num. (r, c, num)) [1..9]
                           else [(r, c, cell g r c)])"

definition cands :: "Board \<Rightarrow> (nat \<times> nat \<times> int) list" where
  "cands g = concat (map (cellCands g) positions)"

definition addCand :: "Solver \<Rightarrow> nat \<times> nat \<times> int \<Rightarrow> Solver" where
  "addCand s = (\<lambda>(r, c, num). addRow r c num s)"

lemma addRow_board [simp]: "board (addRow r c num s) = board s"
  by (simp add: addRow_def Let_def split_beta)

lemma board_addCands [simp]: "board (foldl addCand s cs) = board s"
  by (induction cs arbitrary: s) (simp_all add: addCand_def split_beta)

lemma addCellRows_cands: "addCellRows s p = foldl addCand s (cellCands (board s) p)"
proof -
  obtain r c where p: "p = (r, c)" by (cases p)
  have "foldl (\<lambda>t num. addRow r c num t) s xs = foldl addCand s (map (\<lambda>num. (r, c, num)) xs)"
    for xs
    by (induction xs arbitrary: s) (simp_all add: addCand_def)
  then show ?thesis by (simp add: p addCellRows_def cellCands_def Let_def addCand_def)
qed

lemma addCellRows_fold:
  "foldl addCellRows s ps = foldl addCand s (concat (map (cellCands (board s)) ps))"
proof (induction ps arbitrary: s)
  case Nil
  show ?case by simp
next
  case (Cons p ps)
  have "foldl addCellRows (addCellRows s p) ps
      = foldl addCand (addCellRows s p) (concat (map (cellCands (board (addCellRows s p))) ps))"
    by (rule Cons.IH)
  also have "board (addCellRows s p) = board s" by (simp add: addCellRows_cands)
  finally show ?case by (simp add: addCellRows_cands)
qed

lemma cands_ok:
  assumes "wf_board g"
  shows "\<forall>cand \<in> set (cands g). candOk cand"
proof
  fix cand assume "cand \<in> set (cands g)"
  then obtain r c where p: "(r, c) \<in> set positions" and m: "cand \<in> set (cellCands g (r, c))"
    by (auto simp: cands_def)
  from p have b: "r < 9" "c < 9" by (simp_all add: in_positions)
  from wf_board_cell[OF assms b] have v: "0 \<le> cell g r c" "cell g r c \<le> 9" by simp_all
  from m b v show "candOk cand" by (auto simp: cellCands_def candOk_def split: if_splits)
qed

lemma distinct_cands: "distinct (cands g)"
  unfolding cands_def
proof (rule distinct_concat)
  have "inj_on (cellCands g) (set positions)"
  proof (rule inj_onI)
    fix p q assume "cellCands g p = cellCands g q"
    then have "map (\<lambda>(r, c, n). (r, c)) (cellCands g p) = map (\<lambda>(r, c, n). (r, c)) (cellCands g q)"
      by simp
    moreover have "set (map (\<lambda>(r, c, n). (r, c)) (cellCands g p)) = {p}" for p
    proof -
      have "\<exists>x::int. 1 \<le> x \<and> x \<le> 9" by (rule exI[of _ 1]) simp
      then show ?thesis by (cases p) (auto simp: cellCands_def image_iff)
    qed
    ultimately have "{p} = {q}" by metis
    then show "p = q" by simp
  qed
  then show "distinct (map (cellCands g) positions)"
    using distinct_positions by (simp add: distinct_map)
  show "distinct ys" if "ys \<in> set (map (cellCands g) positions)" for ys
    using that by (auto simp: cellCands_def distinct_map inj_on_def)
  show "set ys \<inter> set zs = {}"
    if "ys \<in> set (map (cellCands g) positions)" "zs \<in> set (map (cellCands g) positions)"
      "ys \<noteq> zs" for ys zs
    using that by (auto simp: cellCands_def split: if_splits)
qed

lemma built_fold:
  assumes "built pre (nodes s) vl" "columns s = [1..<325]" "header s = 0"
    "distinct (pre @ cs)" "\<forall>cand \<in> set cs. candOk cand"
  shows "\<exists>vl'. built (pre @ cs) (nodes (foldl addCand s cs)) vl'
      \<and> columns (foldl addCand s cs) = [1..<325] \<and> header (foldl addCand s cs) = 0"
  using assms
proof (induction cs arbitrary: s pre vl)
  case Nil
  then show ?case by auto
next
  case (Cons cand cs)
  obtain r c num where cand: "cand = (r, c, num)" by (cases cand)
  from Cons.prems(5) have ok: "candOk (r, c, num)" by (simp add: cand)
  from Cons.prems(4) have new: "(r, c, num) \<notin> set pre" by (simp add: cand)
  note B = builtD[OF Cons.prems(1)]
  have al: "\<forall>x \<in> set [1..<325]. x < nextId (nodes s)"
    using B(2) unfolding allocated_def allColumns_def by blast
  note ar = addRow_nodes[OF Cons.prems(2) ok al]
  have b1: "built (pre @ [(r, c, num)]) (nodes (addCand s cand))
      (withRow vl (nextId (nodes s)) (colIds (r, c, num)))"
    using built_step[OF Cons.prems(1) ok new] ar(1) by (simp add: cand addCand_def newRow_def)
  have "\<exists>vl'. built ((pre @ [(r, c, num)]) @ cs) (nodes (foldl addCand (addCand s cand) cs)) vl'
      \<and> columns (foldl addCand (addCand s cand) cs) = [1..<325]
      \<and> header (foldl addCand (addCand s cand) cs) = 0"
  proof (rule Cons.IH[OF b1])
    show "columns (addCand s cand) = [1..<325]" using ar(3) Cons.prems(2) by (simp add: cand addCand_def)
    show "header (addCand s cand) = 0" using ar(2) Cons.prems(3) by (simp add: cand addCand_def)
    show "distinct ((pre @ [(r, c, num)]) @ cs)" using Cons.prems(4) by (simp add: cand)
    show "\<forall>cand \<in> set cs. candOk cand" using Cons.prems(5) by simp
  qed
  then show ?case by (simp add: cand)
qed

text \<open>What \<open>createMatrix\<close> leaves.\<close>

lemma createMatrix_built:
  assumes "wf_board (board s)"
  shows "\<exists>vl0. built (cands (board s)) (nodes (createMatrix s)) vl0"
    "header (createMatrix s) = 0" "board (createMatrix s) = board s"
    "solutionSteps (createMatrix s) = solutionSteps s"
proof -
  let ?s1 = "s\<lparr>header := fst (newColumnNode emptyMatrix), columns := [],
      nodes := snd (newColumnNode emptyMatrix)\<rparr>"
  let ?s2 = "foldl (\<lambda>t i. addColumn t) ?s1 [0..<324]"
  have cm: "createMatrix s = foldl addCand ?s2 (cands (board s))"
  proof -
    have "createMatrix s = foldl addCellRows ?s2 positions"
      by (simp add: createMatrix_def split_beta Let_def)
    also have "\<dots> = foldl addCand ?s2 (concat (map (cellCands (board ?s2)) positions))"
      by (rule addCellRows_fold)
    also have "board ?s2 = board s" using columnsBuilt_fold(2)[OF columnsBuilt_initial] by simp
    finally show ?thesis by (simp add: cands_def)
  qed
  note cb = columnsBuilt_fold(1)[OF columnsBuilt_initial, of 324 s]
  from cb have c2: "columns ?s2 = [1..<325]" and h2: "header ?s2 = 0"
    by (simp_all add: columnsBuilt_def)
  from built_fold[OF columnsBuilt_built[OF cb] c2 h2, of "cands (board s)"]
    distinct_cands[of "board s"] cands_ok[OF assms]
  show "\<exists>vl0. built (cands (board s)) (nodes (createMatrix s)) vl0"
    "header (createMatrix s) = 0"
    unfolding cm by auto
  show "board (createMatrix s) = board s"
    unfolding cm using columnsBuilt_fold(2)[OF columnsBuilt_initial] by simp
  have ss: "solutionSteps (foldl addCand t cs) = solutionSteps t" for t cs
    by (induction cs arbitrary: t) (simp_all add: addCand_def split_beta addRow_def Let_def)
  have sc: "solutionSteps (foldl (\<lambda>t i. addColumn t) t xs) = solutionSteps t" for t and xs :: "nat list"
    by (induction xs arbitrary: t) (simp_all add: addColumn_def split_beta Let_def)
  show "solutionSteps (createMatrix s) = solutionSteps s"
    unfolding cm ss sc by simp
qed

lemma length_cellCands: "length (cellCands g p) \<le> 9"
  by (cases p) (simp add: cellCands_def)

lemma length_concat_le:
  assumes "\<forall>x \<in> set xs. length (f x) \<le> n"
  shows "length (concat (map f xs)) \<le> length xs * n"
  using assms by (induction xs) (simp_all add: add_mono)

lemma length_cands: "length (cands g) \<le> 729"
proof -
  have "length (cands g) \<le> length positions * 9"
    unfolding cands_def by (rule length_concat_le) (simp add: length_cellCands)
  then show ?thesis by (simp add: positions_def)
qed

text \<open>A bound that lets \<open>searchDLX\<close> finish on every grid.\<close>

definition dlxBound :: nat where
  "dlxBound = 236845"

lemma dlxBound_fuel: "fuelDLX 729 (length allColumns) = dlxBound"
  by (simp add: fuelDLX_def allColumns_def dlxBound_def)

lemma createMatrix_dlx:
  assumes "wf_board (board s)"
  shows "\<exists>m0 vl0. built (cands (board s)) m0 vl0 \<and> m0 = nodes (createMatrix s)
      \<and> dlx m0 0 allColumns vl0 m0 allColumns \<and> (\<forall>c \<in> set allColumns. length (vl0 c) \<le> 729)"
proof -
  from createMatrix_built(1)[OF assms] obtain vl0 where
    b: "built (cands (board s)) (nodes (createMatrix s)) vl0" by blast
  note B = builtD[OF b]
  have "\<forall>c \<in> set allColumns. length (vl0 c) \<le> 729"
    using B(6) length_cands[of "board s"] by (meson le_trans)
  with b dlx_refl[OF B(1)] show ?thesis by blast
qed

lemma solveDLX_returns:
  assumes "wf_board (board s)" "dlxBound \<le> k"
  shows "\<exists>ok s'. solveDLX k s = Some (ok, s')"
proof -
  from createMatrix_dlx[OF assms(1)] obtain m0 vl0 where
    m0: "m0 = nodes (createMatrix s)" and d: "dlx m0 0 allColumns vl0 m0 allColumns"
    and N: "\<forall>c \<in> set allColumns. length (vl0 c) \<le> 729"
    by blast
  let ?s = "createMatrix s"
  have d': "dlx m0 (header ?s) allColumns vl0 (nodes ?s) allColumns"
    using d m0 createMatrix_built(2)[OF assms(1)] by simp
  from searchDLX_returns_aux[OF N, of m0 k, THEN conjunct1, rule_format, OF d']
    assms(2) dlxBound_fuel
  show ?thesis unfolding solveDLX_def by auto
qed

text \<open>The columns of the header list: those that \<open>right\<close> reaches from the header.\<close>

inductive_set liveColumns :: "Matrix \<Rightarrow> nat \<Rightarrow> nat set" for m :: Matrix and h :: nat where
  first: "right m h \<noteq> h \<Longrightarrow> right m h \<in> liveColumns m h"
| step: "c \<in> liveColumns m h \<Longrightarrow> right m c \<noteq> h \<Longrightarrow> right m c \<in> liveColumns m h"

text \<open>
  The matrices that the matrix of a grid becomes by calls of \<open>cover\<close> on columns of the
  header list. Calls of \<open>uncover\<close> that undo the calls of \<open>cover\<close>, the last one first,
  lead back to matrices of this kind.
\<close>

definition matrixOf :: "Board \<Rightarrow> Solver" where
  "matrixOf g = createMatrix (setBoard g newSolver)"

inductive reachableMatrix :: "Board \<Rightarrow> Matrix \<Rightarrow> bool" for g :: Board where
  created: "reachableMatrix g (nodes (matrixOf g))"
| covered: "reachableMatrix g m \<Longrightarrow> c \<in> liveColumns m (header (matrixOf g)) \<Longrightarrow>
            cover c m = Some m' \<Longrightarrow> reachableMatrix g m'"

lemma liveColumns_list:
  assumes "cyc (right m) (left m) h L" "c \<in> liveColumns m h"
  shows "c \<in> set L"
  using assms(2)
proof (induction rule: liveColumns.induct)
  case first
  from cyc_head(1)[OF assms(1)] first show ?case by (cases L) auto
next
  case (step c)
  from cyc_neighbours(1)[OF assms(1) step.IH] step.hyps(2) show ?case by simp
qed

lemma reachableMatrix_dlx:
  assumes "wf_board g" "reachableMatrix g m"
  shows "\<exists>m0 vl0 L. dlx m0 (header (matrixOf g)) allColumns vl0 m L"
  using assms(2)
proof (induction rule: reachableMatrix.induct)
  case created
  have wf: "wf_board (board (setBoard g newSolver))" using assms(1) by (simp add: board_setBoard)
  from createMatrix_dlx[OF wf] createMatrix_built(2)[OF wf]
  show ?case unfolding matrixOf_def by auto
next
  case (covered m c m')
  then obtain m0 vl0 L where d: "dlx m0 (header (matrixOf g)) allColumns vl0 m L" by blast
  from dl_initial(4)[OF d] have "cyc (right m) (left m) (header (matrixOf g)) L"
    by (simp add: dl_def)
  from liveColumns_list[OF this covered.hyps(2)] have c: "c \<in> set L" .
  from cover_live[OF d c] covered.hyps(3) show ?case by auto
qed

definition solvedGrid :: Board where
  "solvedGrid = [[5, 3, 4, 6, 7, 8, 9, 1, 2],
                 [6, 7, 2, 1, 9, 5, 3, 4, 8],
                 [1, 9, 8, 3, 4, 2, 5, 6, 7],
                 [8, 5, 9, 7, 6, 1, 4, 2, 3],
                 [4, 2, 6, 8, 5, 3, 7, 9, 1],
                 [7, 1, 3, 9, 2, 4, 8, 5, 6],
                 [9, 6, 1, 5, 3, 7, 2, 8, 4],
                 [2, 8, 7, 4, 1, 9, 6, 3, 5],
                 [3, 4, 5, 2, 8, 6, 1, 7, 9]]"

definition oneHole :: Board where
  "oneHole = setCell solvedGrid 0 0 0"

lemma solveDLX_traceOk:
  assumes "solveDLX k s = Some (ok, s')" "wf_board (board s)" "traceOk s"
  shows "traceOk s'"
proof -
  have "traceOk (createMatrix s)"
    using assms(3) createMatrix_built(4)[OF assms(2)] by (simp add: traceOk_def)
  with searchDLX_traceOk(1)[of k "createMatrix s" ok s'] assms(1) show ?thesis
    by (simp add: solveDLX_def)
qed

lemma dlxBound_emptyCells: "dlxBound \<le> k \<Longrightarrow> length (emptyCells b) < k"
  using length_emptyCells[of b] by (simp add: dlxBound_def)

text \<open>Every algorithm returns on a well-formed grid.\<close>

lemma runAlgorithm_returns:
  assumes "wf_board (board s)" "typedArrays s" "dlxBound \<le> k"
  shows "\<exists>ok s'. runAlgorithm k alg s = Some (ok, s')"
proof (cases alg)
  case DLX
  with solveDLX_returns[OF assms(1,3)] show ?thesis by (simp add: runAlgorithm_def)
next
  case BACKTRACK
  note i = masksOk_initializeBitArrays[OF assms(1,2)]
  have "is9x9 (board (initializeBitArrays s))" using i(2) assms(1) by (simp add: wf_board_is9x9)
  moreover have "length (emptyCells (board (initializeBitArrays s))) < k"
    by (rule dlxBound_emptyCells[OF assms(3)])
  ultimately show ?thesis
    using searchBacktrack_post[OF i(1), of k] BACKTRACK
    by (auto simp: runAlgorithm_def solveBacktrack_def)
next
  case SIMPLE
  from solveSimple_post[OF wf_board_is9x9[OF assms(1)] dlxBound_emptyCells[OF assms(3)]] SIMPLE
  show ?thesis by (auto simp: runAlgorithm_def)
qed

lemma runAlgorithm_traceOk:
  assumes "runAlgorithm k alg s = Some (ok, s')" "wf_board (board s)" "typedArrays s" "traceOk s"
  shows "traceOk s'"
proof (cases alg)
  case DLX
  with assms solveDLX_traceOk[of k s ok s'] show ?thesis by (simp add: runAlgorithm_def)
next
  case BACKTRACK
  note i = masksOk_initializeBitArrays[OF assms(2,3)]
  have "traceOk (initializeBitArrays s)" using i(3) assms(4) by (simp add: traceOk_def)
  with searchBacktrack_traceOk(1)[of k "initializeBitArrays s" ok s'] assms(1) BACKTRACK
  show ?thesis by (simp add: runAlgorithm_def solveBacktrack_def)
next
  case SIMPLE
  with solveSimple_traceOk(1)[of k s ok s'] assms show ?thesis by (simp add: runAlgorithm_def)
qed

text \<open>
  C3. On every well-formed grid (9x9, values 0..9) and with each of the three algorithms,
  \<open>solve\<close> returns (given a bound that lets the search finish), and every Step of the
  trace that \<open>getSolutionSteps\<close> then returns has a non-empty list \<open>testedValues\<close> whose
  last element is the \<open>finalValue\<close> of the Step.
\<close>

theorem steps_end_with_final_value:
  assumes "wf_board g" and "typedArrays s0" and "dlxBound \<le> k"
  shows "\<exists>st s'. solve k alg (setBoard g s0) = Some (st, s')
      \<and> list_all (\<lambda>step. testedValues step \<noteq> [] \<and> last (testedValues step) = finalValue step)
           (getSolutionSteps s')"
proof -
  let ?s = "(setBoard g s0)\<lparr>solutionSteps := []\<rparr>"
  have wf: "wf_board (board ?s)" using assms(1) by (simp add: setBoard_def)
  have ta: "typedArrays ?s" using assms(2) by (simp add: typedArrays_def setBoard_def)
  have tr: "traceOk ?s" by (simp add: traceOk_def)
  from runAlgorithm_returns[OF wf ta assms(3), of alg] obtain ok s1 where
    r: "runAlgorithm k alg ?s = Some (ok, s1)" by blast
  from runAlgorithm_traceOk[OF r wf ta tr] have t1: "list_all stepOk (solutionSteps s1)"
    by (simp add: traceOk_def)
  let ?st = "\<lparr>algorithm = algorithmName alg, steps = length (solutionSteps s1)\<rparr>"
  have "solve k alg (setBoard g s0) = Some (?st, s1\<lparr>stats := ?st\<rparr>)"
    using r by (simp add: solve_def Let_def)
  moreover have "list_all (\<lambda>step. testedValues step \<noteq> [] \<and> last (testedValues step) = finalValue step)
           (getSolutionSteps (s1\<lparr>stats := ?st\<rparr>))"
    using t1 by (simp add: getSolutionSteps_def stepOk_def[abs_def])
  ultimately show ?thesis by blast
qed

theorem steps_end_with_final_value_witness:
  "wf_board oneHole \<and> typedArrays newSolver \<and> dlxBound \<le> dlxBound
   \<and> (\<exists>st s'. solve dlxBound DLX (setBoard oneHole newSolver) = Some (st, s')
      \<and> list_all (\<lambda>step. testedValues step \<noteq> [] \<and> last (testedValues step) = finalValue step)
           (getSolutionSteps s'))"
proof -
  have wf: "wf_board oneHole" by code_simp
  from steps_end_with_final_value[OF wf typedArrays_newSolver order_refl, of DLX]
  show ?thesis using wf typedArrays_newSolver by simp
qed

text \<open>
  C4. Take the matrix that \<open>createMatrix\<close> builds for a well-formed grid, or any matrix that
  calls of \<open>cover\<close> on columns of the header list make of it. For every column \<open>c\<close> of
  its header list, \<open>cover c\<close> returns and \<open>uncover c\<close> then gives the matrix back: the
  same \<open>left\<close>, \<open>right\<close>, \<open>up\<close>, \<open>down\<close> of every node and the same size of every
  column (the two records are equal).
\<close>

theorem cover_uncover_round_trip:
  assumes "wf_board g" and "reachableMatrix g m" and "c \<in> liveColumns m (header (matrixOf g))"
  shows "\<exists>m'. cover c m = Some m' \<and> uncover c m' = Some m"
proof -
  from reachableMatrix_dlx[OF assms(1,2)] obtain m0 vl0 L where
    d: "dlx m0 (header (matrixOf g)) allColumns vl0 m L" by blast
  from dl_initial(4)[OF d] have "cyc (right m) (left m) (header (matrixOf g)) L"
    by (simp add: dl_def)
  from liveColumns_list[OF this assms(3)] have "c \<in> set L" .
  from cover_live[OF d this] show ?thesis by blast
qed

theorem cover_uncover_round_trip_witness:
  "wf_board emptyBoard \<and> reachableMatrix emptyBoard (nodes (matrixOf emptyBoard))
   \<and> 1 \<in> liveColumns (nodes (matrixOf emptyBoard)) (header (matrixOf emptyBoard))
   \<and> (\<exists>m'. cover 1 (nodes (matrixOf emptyBoard)) = Some m'
          \<and> uncover 1 m' = Some (nodes (matrixOf emptyBoard)))"
proof -
  let ?m = "nodes (matrixOf emptyBoard)"
  let ?h = "header (matrixOf emptyBoard)"
  have wf: "wf_board emptyBoard" by code_simp
  have r: "reachableMatrix emptyBoard ?m" by (rule reachableMatrix.created)
  from reachableMatrix_dlx[OF wf r] obtain m0 vl0 L where
    d: "dlx m0 ?h allColumns vl0 ?m L" by blast
  have wf': "wf_board (board (setBoard emptyBoard newSolver))" using wf by (simp add: board_setBoard)
  from createMatrix_dlx[OF wf'] obtain m1 vl1 where
    d1: "dlx m1 0 allColumns vl1 ?m allColumns" unfolding matrixOf_def by blast
  have h: "?h = 0" unfolding matrixOf_def by (rule createMatrix_built(2)[OF wf'])
  from dl_initial(4)[OF d1] have c: "cyc (right ?m) (left ?m) 0 allColumns" by (simp add: dl_def)
  have "right ?m 0 = 1" using cyc_head(1)[OF c] by (simp add: allColumns_def upt_rec)
  then have live: "1 \<in> liveColumns ?m ?h"
    using liveColumns.first[of ?m ?h] by (simp add: h)
  from cover_uncover_round_trip[OF wf r live] wf r live show ?thesis by blast
qed

end
